theory Spec2Isabelle
  imports Main "HOL-Library.Word"
begin

unbundle bit_operations_syntax

section \<open>The data model of \<open>fdt::vector\<close>\<close>

text \<open>
  Source: \<^verbatim>\<open>src/include/fdt/random/vector.h\<close>.

  \<^verbatim>\<open>size_type\<close> is \<^verbatim>\<open>std::size_t\<close>; the embedding fixes the 64-bit platform,
  the first \<^verbatim>\<open>if constexpr (sizeof(s) == 8)\<close> branch of \<^verbatim>\<open>alloc_size\<close>, so a
  \<^verbatim>\<open>size_t\<close> is a 64-bit word and its arithmetic wraps around.
\<close>

type_synonym size_t = "64 word"

text \<open>
  A pointer \<^verbatim>\<open>T*\<close> to the start of a block is an address, or \<open>None\<close> for
  \<^verbatim>\<open>nullptr\<close>.
\<close>

type_synonym addr = nat

type_synonym pointer = "addr option"

text \<open>
  The conditions the code can end in: the two exceptions of \<^verbatim>\<open>fdt/exception.h\<close>
  thrown by \<^verbatim>\<open>at\<close> and by the arithmetic operators, the allocator's failure, and
  undefined behaviour (a read of a slot that holds no object, an access outside the
  block, a null or dangling pointer).
\<close>

datatype error = array_out_of_range | vector_size_mismatch | bad_alloc | undefined_behaviour

subsection \<open>The allocator\<close>

text \<open>
  \<^verbatim>\<open>std::allocator\<close> and \<^verbatim>\<open>std::allocator_traits\<close> belong to the standard library,
  not to the repository. The memory they manage is a table of blocks, indexed by
  address: a live block is the list of its slots, a slot being \<open>None\<close> while no object
  has been constructed in it; a released block is \<open>None\<close>. \<open>free_slots\<close> is the number of
  slots the allocator can still hand out: a request beyond it fails with \<open>bad_alloc\<close>.
  A new block always gets an address that was never used before, also for a request
  of zero slots (\<^verbatim>\<open>operator new(0)\<close> returns a non-null pointer).
\<close>

record 'a memory =
  blocks :: "'a option list option list"
  free_slots :: nat

definition lookup :: "'a memory \<Rightarrow> addr \<Rightarrow> 'a option list option" where
  "lookup m a = (if a < length (blocks m) then blocks m ! a else None)"

definition allocate :: "'a memory \<Rightarrow> size_t \<Rightarrow> (error + addr) \<times> 'a memory" where
  "allocate m n =
     (if unat n \<le> free_slots m
      then (Inr (length (blocks m)),
            m\<lparr>blocks := blocks m @ [Some (replicate (unat n) None)],
              free_slots := free_slots m - unat n\<rparr>)
      else (Inl bad_alloc, m))"

text \<open>
  \<^verbatim>\<open>deallocate(p, n)\<close>: nothing for the null pointer; a live block of \<open>n\<close> slots is
  released; anything else is outside the allocator's contract.
\<close>

definition deallocate :: "'a memory \<Rightarrow> pointer \<Rightarrow> size_t \<Rightarrow> (error + unit) \<times> 'a memory" where
  "deallocate m p n =
     (case p of
        None \<Rightarrow> (Inr (), m)
      | Some a \<Rightarrow>
          (case lookup m a of
             None \<Rightarrow> (Inl undefined_behaviour, m)
           | Some b \<Rightarrow>
               if length b = unat n
               then (Inr (), m\<lparr>blocks := (blocks m)[a := None],
                                free_slots := free_slots m + length b\<rparr>)
               else (Inl undefined_behaviour, m)))"

text \<open>\<^verbatim>\<open>construct(p + i, val)\<close>: slot \<open>i\<close> of the block at \<open>p\<close> holds \<open>val\<close> afterwards.\<close>

definition construct :: "'a memory \<Rightarrow> pointer \<Rightarrow> nat \<Rightarrow> 'a \<Rightarrow> (error + unit) \<times> 'a memory" where
  "construct m p i val =
     (case p of
        None \<Rightarrow> (Inl undefined_behaviour, m)
      | Some a \<Rightarrow>
          (case lookup m a of
             None \<Rightarrow> (Inl undefined_behaviour, m)
           | Some b \<Rightarrow>
               if i < length b
               then (Inr (), m\<lparr>blocks := (blocks m)[a := Some (b[i := Some val])]\<rparr>)
               else (Inl undefined_behaviour, m)))"

text \<open>Reading \<^verbatim>\<open>*(p + i)\<close>.\<close>

definition deref :: "'a memory \<Rightarrow> pointer \<Rightarrow> nat \<Rightarrow> error + 'a" where
  "deref m p i =
     (case p of
        None \<Rightarrow> Inl undefined_behaviour
      | Some a \<Rightarrow>
          (case lookup m a of
             None \<Rightarrow> Inl undefined_behaviour
           | Some b \<Rightarrow>
               if i < length b
               then (case b ! i of None \<Rightarrow> Inl undefined_behaviour | Some x \<Rightarrow> Inr x)
               else Inl undefined_behaviour))"

subsection \<open>The vector\<close>

text \<open>
  The data members \<^verbatim>\<open>data_\<close>, \<^verbatim>\<open>size_\<close> and \<^verbatim>\<open>capacity_\<close> of the class, as
  \<open>v_data\<close>, \<open>v_size\<close> and \<open>v_capacity\<close> (a name of a constant cannot end in an
  underscore). \<^verbatim>\<open>alloc_\<close> is a \<^verbatim>\<open>std::allocator\<close>, which has no state, and is left
  out.
\<close>

record vector =
  v_data :: pointer
  v_size :: size_t
  v_capacity :: size_t

text \<open>\<^verbatim>\<open>alloc_size\<close>, the branch for an 8-byte \<^verbatim>\<open>size_t\<close>.\<close>

definition alloc_size :: "size_t \<Rightarrow> size_t" where
  "alloc_size s0 =
     (let s = s0 - 1;
          s = s OR drop_bit 1 s;
          s = s OR drop_bit 2 s;
          s = s OR drop_bit 4 s;
          s = s OR drop_bit 8 s;
          s = s OR drop_bit 16 s;
          s = s OR drop_bit 32 s
      in s + 1)"

text \<open>The default constructor.\<close>

definition vector_default :: vector where
  "vector_default = \<lparr>v_data = None, v_size = 0, v_capacity = 0\<rparr>"

text \<open>
  A loop counter \<open>i\<close> with \<open>i < n\<close> does not wrap around when it is incremented.
\<close>

lemma unat_inc_less: "(i :: 'a::len word) < n \<Longrightarrow> unat (i + 1) = Suc (unat i)"
proof -
  assume "i < n"
  then have "unat i < unat n"
    by (simp add: word_less_nat_alt)
  moreover have "unat n < 2 ^ LENGTH('a)"
    by simp
  ultimately have "unat i + 1 < 2 ^ LENGTH('a)"
    by linarith
  then show ?thesis
    by (simp add: unat_word_ariths)
qed

text \<open>
  The loop of the copy constructor and of \<^verbatim>\<open>reserve\<close>:
  \<^verbatim>\<open>for (i = 0; i < n; ++i) construct(dst + i, *(src + i))\<close>.
  \<^verbatim>\<open>std::copy(src, src + n, dst)\<close> in \<^verbatim>\<open>shrink_to_fit\<close> stores the same values
  into the same slots.
\<close>

function copy_elems :: "'a memory \<Rightarrow> pointer \<Rightarrow> pointer \<Rightarrow> size_t \<Rightarrow> size_t \<Rightarrow> (error + unit) \<times> 'a memory" where
  "copy_elems m dst src i n =
     (if i < n
      then (case deref m src (unat i) of
              Inl e \<Rightarrow> (Inl e, m)
            | Inr x \<Rightarrow>
                (case construct m dst (unat i) x of
                   (Inl e, m1) \<Rightarrow> (Inl e, m1)
                 | (Inr u, m1) \<Rightarrow> copy_elems m1 dst src (i + 1) n))
      else (Inr (), m))"
  by pat_completeness auto
termination
  by (relation "measure (\<lambda>(m, dst, src, i, n). unat n - unat i)")
     (simp_all add: unat_inc_less word_less_nat_alt)

declare copy_elems.simps [simp del]

text \<open>
  The loop of the pre-allocation constructor:
  \<^verbatim>\<open>for (i = 0; i < size_; ++i) construct(data_ + i)\<close>. \<open>dflt\<close> is the value-initialised
  \<^verbatim>\<open>T()\<close>.
\<close>

function default_elems :: "'a memory \<Rightarrow> pointer \<Rightarrow> 'a \<Rightarrow> size_t \<Rightarrow> size_t \<Rightarrow> (error + unit) \<times> 'a memory" where
  "default_elems m dst dflt i n =
     (if i < n
      then (case construct m dst (unat i) dflt of
              (Inl e, m1) \<Rightarrow> (Inl e, m1)
            | (Inr u, m1) \<Rightarrow> default_elems m1 dst dflt (i + 1) n)
      else (Inr (), m))"
  by pat_completeness auto
termination
  by (relation "measure (\<lambda>(m, dst, dflt, i, n). unat n - unat i)")
     (simp_all add: unat_inc_less word_less_nat_alt)

declare default_elems.simps [simp del]

text \<open>
  The loop of the initializer-list constructor:
  \<^verbatim>\<open>for (i = 0; i < init.size(); ++i) construct(data_ + i, *(init.begin() + i))\<close>.
  \<open>init.size()\<close> is the length of the list as a \<^verbatim>\<open>size_t\<close>, so \<open>i\<close> stays within the list.
\<close>

function init_elems :: "'a memory \<Rightarrow> pointer \<Rightarrow> 'a list \<Rightarrow> size_t \<Rightarrow> (error + unit) \<times> 'a memory" where
  "init_elems m dst init i =
     (if i < word_of_nat (length init)
      then (case construct m dst (unat i) (init ! unat i) of
              (Inl e, m1) \<Rightarrow> (Inl e, m1)
            | (Inr u, m1) \<Rightarrow> init_elems m1 dst init (i + 1))
      else (Inr (), m))"
  by pat_completeness auto
termination
  by (relation "measure (\<lambda>(m, dst, init, i). unat (word_of_nat (length init) :: size_t) - unat i)")
     (simp_all add: unat_inc_less word_less_nat_alt)

declare init_elems.simps [simp del]

subsection \<open>Constructors and destructor\<close>

text \<open>\<^verbatim>\<open>vector(std::size_t n)\<close>.\<close>

definition vector_sized :: "'a memory \<Rightarrow> 'a \<Rightarrow> size_t \<Rightarrow> (error + vector) \<times> 'a memory" where
  "vector_sized m dflt n =
     (case allocate m n of
        (Inl e, m1) \<Rightarrow> (Inl e, m1)
      | (Inr a, m1) \<Rightarrow>
          (case default_elems m1 (Some a) dflt 0 n of
             (Inl e, m2) \<Rightarrow> (Inl e, m2)
           | (Inr u, m2) \<Rightarrow> (Inr \<lparr>v_data = Some a, v_size = n, v_capacity = n\<rparr>, m2)))"

text \<open>\<^verbatim>\<open>vector(const vector& other)\<close>.\<close>

definition vector_copy :: "'a memory \<Rightarrow> vector \<Rightarrow> (error + vector) \<times> 'a memory" where
  "vector_copy m other =
     (case allocate m (v_capacity other) of
        (Inl e, m1) \<Rightarrow> (Inl e, m1)
      | (Inr a, m1) \<Rightarrow>
          (case copy_elems m1 (Some a) (v_data other) 0 (v_size other) of
             (Inl e, m2) \<Rightarrow> (Inl e, m2)
           | (Inr u, m2) \<Rightarrow>
               (Inr \<lparr>v_data = Some a, v_size = v_size other, v_capacity = v_capacity other\<rparr>, m2)))"

text \<open>
  \<^verbatim>\<open>vector(vector&& other)\<close>: the new vector, and \<open>other\<close> as the constructor
  leaves it.
\<close>

definition vector_move :: "vector \<Rightarrow> vector \<times> vector" where
  "vector_move other =
     (\<lparr>v_data = v_data other, v_size = v_size other, v_capacity = v_capacity other\<rparr>,
      other\<lparr>v_data := None, v_size := 0, v_capacity := 0\<rparr>)"

text \<open>\<^verbatim>\<open>vector(std::initializer_list<T> init)\<close>.\<close>

definition vector_init :: "'a memory \<Rightarrow> 'a list \<Rightarrow> (error + vector) \<times> 'a memory" where
  "vector_init m init =
     (case allocate m (word_of_nat (length init)) of
        (Inl e, m1) \<Rightarrow> (Inl e, m1)
      | (Inr a, m1) \<Rightarrow>
          (case init_elems m1 (Some a) init 0 of
             (Inl e, m2) \<Rightarrow> (Inl e, m2)
           | (Inr u, m2) \<Rightarrow>
               (Inr \<lparr>v_data = Some a, v_size = word_of_nat (length init),
                      v_capacity = word_of_nat (length init)\<rparr>, m2)))"

text \<open>\<^verbatim>\<open>~vector()\<close>.\<close>

definition vector_dtor :: "'a memory \<Rightarrow> vector \<Rightarrow> (error + unit) \<times> 'a memory" where
  "vector_dtor m v = deallocate m (v_data v) (v_capacity v)"

subsection \<open>Element access\<close>

text \<open>
  \<^verbatim>\<open>at\<close> and \<^verbatim>\<open>operator[]\<close> return a reference to \<^verbatim>\<open>*(data_ + i)\<close>; the embedding
  returns the value the reference designates.
\<close>

definition at :: "'a memory \<Rightarrow> vector \<Rightarrow> size_t \<Rightarrow> error + 'a" where
  "at m v i = (if i \<ge> v_size v then Inl array_out_of_range else deref m (v_data v) (unat i))"

definition index :: "'a memory \<Rightarrow> vector \<Rightarrow> size_t \<Rightarrow> error + 'a" where
  "index m v i = deref m (v_data v) (unat i)"

subsection \<open>Capacity\<close>

definition reserve :: "'a memory \<Rightarrow> vector \<Rightarrow> size_t \<Rightarrow> (error + vector) \<times> 'a memory" where
  "reserve m v n =
     (if n \<le> v_capacity v then (Inr v, m)
      else (case allocate m n of
              (Inl e, m1) \<Rightarrow> (Inl e, m1)
            | (Inr a, m1) \<Rightarrow>
                (case copy_elems m1 (Some a) (v_data v) 0 (v_size v) of
                   (Inl e, m2) \<Rightarrow> (Inl e, m2)
                 | (Inr u, m2) \<Rightarrow>
                     (case deallocate m2 (v_data v) (v_capacity v) of
                        (Inl e, m3) \<Rightarrow> (Inl e, m3)
                      | (Inr u, m3) \<Rightarrow> (Inr (v\<lparr>v_capacity := n, v_data := Some a\<rparr>), m3)))))"

definition resize :: "'a memory \<Rightarrow> vector \<Rightarrow> size_t \<Rightarrow> (error + vector) \<times> 'a memory" where
  "resize m v n =
     (if n \<le> v_size v then (Inr (v\<lparr>v_size := n\<rparr>), m)
      else (case reserve m v (alloc_size n) of
              (Inl e, m1) \<Rightarrow> (Inl e, m1)
            | (Inr v1, m1) \<Rightarrow> (Inr (v1\<lparr>v_size := n\<rparr>), m1)))"

definition shrink_to_fit :: "'a memory \<Rightarrow> vector \<Rightarrow> (error + vector) \<times> 'a memory" where
  "shrink_to_fit m v =
     (if v_size v = v_capacity v then (Inr v, m)
      else (case allocate m (v_size v) of
              (Inl e, m1) \<Rightarrow> (Inl e, m1)
            | (Inr a, m1) \<Rightarrow>
                (case copy_elems m1 (Some a) (v_data v) 0 (v_size v) of
                   (Inl e, m2) \<Rightarrow> (Inl e, m2)
                 | (Inr u, m2) \<Rightarrow>
                     (case deallocate m2 (v_data v) (v_capacity v) of
                        (Inl e, m3) \<Rightarrow> (Inl e, m3)
                      | (Inr u, m3) \<Rightarrow>
                          (Inr (v\<lparr>v_capacity := v_size v, v_data := Some a\<rparr>), m3)))))"

subsection \<open>Modifiers\<close>

text \<open>
  \<^verbatim>\<open>push_back(const T& value)\<close> and \<^verbatim>\<open>emplace_back(Args&&... args)\<close> take references.
  The object a reference designates is either outside the allocator's memory (a
  temporary, a local variable), given by its value, or a slot of a block, such as the
  element \<^verbatim>\<open>x[0]\<close> of a vector. It is read when the new element is constructed from it.
\<close>

datatype 'a reference = Outside 'a | Slot pointer nat

definition read :: "'a memory \<Rightarrow> 'a reference \<Rightarrow> error + 'a" where
  "read m r = (case r of Outside x \<Rightarrow> Inr x | Slot p i \<Rightarrow> deref m p i)"

text \<open>\<^verbatim>\<open>construct(p + i, value)\<close> with \<open>value\<close> a reference.\<close>

definition construct_from :: "'a memory \<Rightarrow> pointer \<Rightarrow> nat \<Rightarrow> 'a reference \<Rightarrow> (error + unit) \<times> 'a memory" where
  "construct_from m p i r =
     (case read m r of
        Inl e \<Rightarrow> (Inl e, m)
      | Inr x \<Rightarrow> construct m p i x)"

text \<open>
  In both branches \<^verbatim>\<open>size_++\<close> comes before \<^verbatim>\<open>construct(data_ + size_ - 1, value)\<close>,
  and in the second branch \<open>value\<close> is read after \<^verbatim>\<open>reserve\<close> has released the old block.
\<close>

definition push_back :: "'a memory \<Rightarrow> vector \<Rightarrow> 'a reference \<Rightarrow> (error + vector) \<times> 'a memory" where
  "push_back m v val =
     (if v_size v + 1 < v_capacity v
      then (let v1 = v\<lparr>v_size := v_size v + 1\<rparr> in
            case construct_from m (v_data v1) (unat (v_size v1 - 1)) val of
              (Inl e, m1) \<Rightarrow> (Inl e, m1)
            | (Inr u, m1) \<Rightarrow> (Inr v1, m1))
      else (case reserve m v (alloc_size (v_capacity v + 1)) of
              (Inl e, m1) \<Rightarrow> (Inl e, m1)
            | (Inr v0, m1) \<Rightarrow>
                (let v1 = v0\<lparr>v_size := v_size v0 + 1\<rparr> in
                 case construct_from m1 (v_data v1) (unat (v_size v1 - 1)) val of
                   (Inl e, m2) \<Rightarrow> (Inl e, m2)
                 | (Inr u, m2) \<Rightarrow> (Inr v1, m2))))"

text \<open>
  \<^verbatim>\<open>emplace_back(args...)\<close>: \<open>args\<close> designates the object the element is constructed
  from, \<open>Outside x\<close> when the arguments are temporaries from which \<^verbatim>\<open>T(args...)\<close> is \<open>x\<close>.
  The result is the vector with the value of the returned reference
  \<^verbatim>\<open>*(data_ + size_ - 1)\<close>.
\<close>

definition emplace_back :: "'a memory \<Rightarrow> vector \<Rightarrow> 'a reference \<Rightarrow> (error + vector \<times> 'a) \<times> 'a memory" where
  "emplace_back m v args =
     (if v_size v + 1 < v_capacity v
      then (let v1 = v\<lparr>v_size := v_size v + 1\<rparr> in
            case construct_from m (v_data v1) (unat (v_size v1 - 1)) args of
              (Inl e, m1) \<Rightarrow> (Inl e, m1)
            | (Inr u, m1) \<Rightarrow>
                (case deref m1 (v_data v1) (unat (v_size v1 - 1)) of
                   Inl e \<Rightarrow> (Inl e, m1)
                 | Inr x \<Rightarrow> (Inr (v1, x), m1)))
      else (case reserve m v (alloc_size (v_capacity v + 1)) of
              (Inl e, m1) \<Rightarrow> (Inl e, m1)
            | (Inr v0, m1) \<Rightarrow>
                (let v1 = v0\<lparr>v_size := v_size v0 + 1\<rparr> in
                 case construct_from m1 (v_data v1) (unat (v_size v1 - 1)) args of
                   (Inl e, m2) \<Rightarrow> (Inl e, m2)
                 | (Inr u, m2) \<Rightarrow>
                     (case deref m2 (v_data v1) (unat (v_size v1 - 1)) of
                        Inl e \<Rightarrow> (Inl e, m2)
                      | Inr x \<Rightarrow> (Inr (v1, x), m2)))))"

definition pop_back :: "vector \<Rightarrow> vector" where
  "pop_back v = (if v_size v = 0 then v else v\<lparr>v_size := v_size v - 1\<rparr>)"

text \<open>\<^verbatim>\<open>this->swap(other)\<close>: the pair of \<^verbatim>\<open>*this\<close> and \<open>other\<close> afterwards.\<close>

definition swap :: "vector \<Rightarrow> vector \<Rightarrow> vector \<times> vector" where
  "swap v other =
     (v\<lparr>v_data := v_data other, v_capacity := v_capacity other, v_size := v_size other\<rparr>,
      other\<lparr>v_data := v_data v, v_capacity := v_capacity v, v_size := v_size v\<rparr>)"

subsection \<open>Comparison\<close>

text \<open>
  The loop of \<^verbatim>\<open>operator==\<close>:
  \<^verbatim>\<open>for (i = 0; i < l.size(); ++i) if (l[i] != r[i]) return false; return true;\<close>
\<close>

function eq_loop :: "'a memory \<Rightarrow> vector \<Rightarrow> vector \<Rightarrow> size_t \<Rightarrow> error + bool" where
  "eq_loop m l r i =
     (if i < v_size l
      then (case index m l i of
              Inl e \<Rightarrow> Inl e
            | Inr a \<Rightarrow>
                (case index m r i of
                   Inl e \<Rightarrow> Inl e
                 | Inr b \<Rightarrow> if a \<noteq> b then Inr False else eq_loop m l r (i + 1)))
      else Inr True)"
  by pat_completeness auto
termination
  by (relation "measure (\<lambda>(m, l, r, i). unat (v_size l) - unat i)")
     (simp_all add: unat_inc_less word_less_nat_alt)

declare eq_loop.simps [simp del]

text \<open>\<^verbatim>\<open>operator==\<close> and \<^verbatim>\<open>operator!=\<close>.\<close>

definition vector_eq :: "'a memory \<Rightarrow> vector \<Rightarrow> vector \<Rightarrow> error + bool" where
  "vector_eq m l r =
     (if v_data l = None \<or> v_data r = None then Inr False
      else if v_size l \<noteq> v_size r then Inr False
      else eq_loop m l r 0)"

definition vector_ne :: "'a memory \<Rightarrow> vector \<Rightarrow> vector \<Rightarrow> error + bool" where
  "vector_ne m l r = (case vector_eq m l r of Inl e \<Rightarrow> Inl e | Inr b \<Rightarrow> Inr (\<not> b))"

subsection \<open>Arithmetic\<close>

text \<open>
  The loop of \<^verbatim>\<open>operator+\<close> and \<^verbatim>\<open>operator-\<close>, \<open>f\<close> being the operation on the
  elements: \<^verbatim>\<open>for (i = 0; i < l.size(); ++i) sum.emplace_back(l[i] + r[i]);\<close>
  \<open>sum_v\<close> is the local \<^verbatim>\<open>sum\<close>; when \<^verbatim>\<open>emplace_back\<close> throws, it is destroyed on the
  way out. The argument \<^verbatim>\<open>l[i] + r[i]\<close> is a temporary.
\<close>

function arith_loop :: "('a \<Rightarrow> 'a \<Rightarrow> 'a) \<Rightarrow> 'a memory \<Rightarrow> vector \<Rightarrow> vector \<Rightarrow> vector \<Rightarrow> size_t \<Rightarrow> (error + vector) \<times> 'a memory" where
  "arith_loop f m l r sum_v i =
     (if i < v_size l
      then (case index m l i of
              Inl e \<Rightarrow> (Inl e, m)
            | Inr a \<Rightarrow>
                (case index m r i of
                   Inl e \<Rightarrow> (Inl e, m)
                 | Inr b \<Rightarrow>
                     (case emplace_back m sum_v (Outside (f a b)) of
                        (Inl e, m1) \<Rightarrow> (Inl e, snd (vector_dtor m1 sum_v))
                      | (Inr (sum_v1, x), m1) \<Rightarrow> arith_loop f m1 l r sum_v1 (i + 1))))
      else (Inr sum_v, m))"
  by pat_completeness auto
termination
  by (relation "measure (\<lambda>(f, m, l, r, sum_v, i). unat (v_size l) - unat i)")
     (simp_all add: unat_inc_less word_less_nat_alt)

declare arith_loop.simps [simp del]

text \<open>\<^verbatim>\<open>operator+\<close> and \<^verbatim>\<open>operator-\<close>.\<close>

definition vector_plus :: "'a::plus memory \<Rightarrow> vector \<Rightarrow> vector \<Rightarrow> (error + vector) \<times> 'a memory" where
  "vector_plus m l r =
     (if v_size l \<noteq> v_size r then (Inl vector_size_mismatch, m)
      else arith_loop (\<lambda>a b. a + b) m l r vector_default 0)"

definition vector_minus :: "'a::minus memory \<Rightarrow> vector \<Rightarrow> vector \<Rightarrow> (error + vector) \<times> 'a memory" where
  "vector_minus m l r =
     (if v_size l \<noteq> v_size r then (Inl vector_size_mismatch, m)
      else arith_loop (\<lambda>a b. a - b) m l r vector_default 0)"

subsection \<open>Assignment\<close>

text \<open>
  The assignment operators compare the addresses of their operands
  (\<^verbatim>\<open>if (&other == this) return *this;\<close>), so here the vectors are objects in a store,
  named by their identity, next to the allocator's memory.
\<close>

type_synonym vid = nat

record 'a state =
  objs :: "vid \<Rightarrow> vector"
  heap :: "'a memory"

text \<open>
  \<^verbatim>\<open>operator=(const vector& other)\<close>: the local \<^verbatim>\<open>copy\<close> is constructed, swapped with
  \<^verbatim>\<open>*this\<close>, and destroyed at the end of the block. The returned reference to
  \<^verbatim>\<open>*this\<close> is not modelled.
\<close>

definition assign_copy :: "'a state \<Rightarrow> vid \<Rightarrow> vid \<Rightarrow> (error + unit) \<times> 'a state" where
  "assign_copy s this other =
     (if other = this then (Inr (), s)
      else (case vector_copy (heap s) (objs s other) of
              (Inl e, m1) \<Rightarrow> (Inl e, s\<lparr>heap := m1\<rparr>)
            | (Inr copy, m1) \<Rightarrow>
                (case swap copy (objs s this) of
                   (copy1, this1) \<Rightarrow>
                     (case vector_dtor m1 copy1 of
                        (res, m2) \<Rightarrow> (res, s\<lparr>objs := (objs s)(this := this1), heap := m2\<rparr>)))))"

text \<open>\<^verbatim>\<open>operator=(vector&& other)\<close>.\<close>

definition assign_move :: "'a state \<Rightarrow> vid \<Rightarrow> vid \<Rightarrow> (error + unit) \<times> 'a state" where
  "assign_move s this other =
     (if other = this then (Inr (), s)
      else (case vector_move (objs s other) of
              (copy, other1) \<Rightarrow>
                (case swap copy (objs s this) of
                   (copy1, this1) \<Rightarrow>
                     (case vector_dtor (heap s) copy1 of
                        (res, m2) \<Rightarrow>
                          (res, s\<lparr>objs := (objs s)(other := other1, this := this1),
                                  heap := m2\<rparr>)))))"

text \<open>
  \<^verbatim>\<open>vector(vector&& other)\<close> on the store: the object \<open>new\<close> is constructed from the
  object \<open>other\<close>.
\<close>

definition construct_move :: "'a state \<Rightarrow> vid \<Rightarrow> vid \<Rightarrow> 'a state" where
  "construct_move s new other =
     (case vector_move (objs s other) of
        (v, other1) \<Rightarrow> s\<lparr>objs := (objs s)(other := other1, new := v)\<rparr>)"

text \<open>A store in which every object is a default-constructed vector.\<close>

definition no_objects :: "vid \<Rightarrow> vector" where
  "no_objects = (\<lambda>_. vector_default)"

section \<open>Notions of the specification\<close>

text \<open>The values \<open>0, 1, 2, 4, 8, 16, \<dots>\<close> of a capacity.\<close>

definition pow2_or_zero :: "size_t \<Rightarrow> bool" where
  "pow2_or_zero c = (c = 0 \<or> (\<exists>k \<in> {..<64}. c = 2 ^ k))"

text \<open>\<open>c\<close> is the smallest power of two that is at least \<open>n\<close>.\<close>

definition is_pow2 :: "nat \<Rightarrow> bool" where
  "is_pow2 c = (\<exists>k \<in> {..c}. c = 2 ^ k)"

definition least_pow2_ge :: "nat \<Rightarrow> nat \<Rightarrow> bool" where
  "least_pow2_ge c n = (is_pow2 c \<and> n \<le> c \<and> (\<forall>d \<in> {..<c}. is_pow2 d \<longrightarrow> d < n))"

text \<open>
  The slots \<open>[0, size)\<close> of a vector's storage, and its elements. A vector is
  well-formed in a memory when \<open>size \<le> capacity\<close>, its storage is null with capacity 0
  or a live block of \<open>capacity\<close> slots, and every slot below \<open>size\<close> holds an object.
\<close>

definition storage :: "'a memory \<Rightarrow> vector \<Rightarrow> 'a option list" where
  "storage m v =
     (case v_data v of
        None \<Rightarrow> []
      | Some a \<Rightarrow> (case lookup m a of None \<Rightarrow> [] | Some b \<Rightarrow> b))"

definition elems :: "'a memory \<Rightarrow> vector \<Rightarrow> 'a list" where
  "elems m v = map the (take (unat (v_size v)) (storage m v))"

definition well_formed :: "'a memory \<Rightarrow> vector \<Rightarrow> bool" where
  "well_formed m v =
     (v_size v \<le> v_capacity v \<and>
      (case v_data v of
         None \<Rightarrow> v_capacity v = 0
       | Some a \<Rightarrow>
           (case lookup m a of
              None \<Rightarrow> False
            | Some b \<Rightarrow>
                length b = unat (v_capacity v) \<and>
                list_all (\<lambda>slot. slot \<noteq> None) (take (unat (v_size v)) b))))"

text \<open>The reference designates a slot of the vector's own storage.\<close>

definition refers_into :: "'a reference \<Rightarrow> vector \<Rightarrow> bool" where
  "refers_into r v = (case r of Outside x \<Rightarrow> False | Slot p i \<Rightarrow> p = v_data v)"

text \<open>A sequence of \<^verbatim>\<open>push_back\<close> calls; it ends at the first call that fails.\<close>

fun push_backs :: "'a memory \<Rightarrow> vector \<Rightarrow> 'a reference list \<Rightarrow> (error + vector) \<times> 'a memory" where
  "push_backs m v [] = (Inr v, m)"
| "push_backs m v (x # xs) =
     (case push_back m v x of
        (Inl e, m1) \<Rightarrow> (Inl e, m1)
      | (Inr v1, m1) \<Rightarrow> push_backs m1 v1 xs)"

section \<open>The rounding of a capacity\<close>

text \<open>
  Each step \<^verbatim>\<open>s |= s >> k\<close> doubles the number of positions above a bit that are
  looked at: after the six steps a bit is set when any bit at or above it was set.
\<close>

lemma smear_step:
  assumes "\<And>n. bit s n \<longleftrightarrow> (\<exists>j<k. bit (x::'a::len word) (n + j))"
  shows "bit (s OR drop_bit k s) n \<longleftrightarrow> (\<exists>j<2*k. bit x (n + j))"
proof
  assume "bit (s OR drop_bit k s) n"
  then have "bit s n \<or> bit s (k + n)"
    by (simp only: bit_or_iff bit_drop_bit_eq comp_def)
  then show "\<exists>j<2*k. bit x (n + j)"
  proof
    assume "bit s n"
    then obtain j where "j < k" "bit x (n + j)"
      using assms [of n] by blast
    moreover from this have "j < 2 * k"
      by linarith
    ultimately show ?thesis
      by blast
  next
    assume "bit s (k + n)"
    then obtain j where j: "j < k" "bit x (k + n + j)"
      using assms [of "k + n"] by blast
    from j(2) have "bit x (n + (k + j))"
      by (simp only: ac_simps)
    moreover from j(1) have "k + j < 2 * k"
      by linarith
    ultimately show ?thesis
      by blast
  qed
next
  assume "\<exists>j<2*k. bit x (n + j)"
  then obtain j where j: "j < 2 * k" "bit x (n + j)"
    by blast
  show "bit (s OR drop_bit k s) n"
  proof (cases "j < k")
    case True
    with j have "bit s n"
      using assms [of n] by blast
    then show ?thesis
      by (simp only: bit_or_iff simp_thms)
  next
    case False
    with j have "j - k < k"
      by linarith
    moreover from False have "k + n + (j - k) = n + j"
      by linarith
    with j have "bit x (k + n + (j - k))"
      by (simp only:)
    ultimately have "bit s (k + n)"
      using assms [of "k + n"] by blast
    then show ?thesis
      by (simp only: bit_or_iff bit_drop_bit_eq comp_def simp_thms)
  qed
qed


lemma alloc_size_bits:
  "bit (alloc_size s - 1) n \<longleftrightarrow> (\<exists>j<64. bit (s - 1) (n + j))"
proof -
  define s0 where "s0 = s - 1"
  define s1 where "s1 = s0 OR drop_bit 1 s0"
  define s2 where "s2 = s1 OR drop_bit 2 s1"
  define s3 where "s3 = s2 OR drop_bit 4 s2"
  define s4 where "s4 = s3 OR drop_bit 8 s3"
  define s5 where "s5 = s4 OR drop_bit 16 s4"
  define s6 where "s6 = s5 OR drop_bit 32 s5"
  have b0: "bit s0 n \<longleftrightarrow> (\<exists>j<1. bit s0 (n + j))" for n
    by simp
  have b1: "bit s1 n \<longleftrightarrow> (\<exists>j<2. bit s0 (n + j))" for n
    unfolding s1_def using smear_step [of s0 1 s0 n, OF b0] by simp
  have b2: "bit s2 n \<longleftrightarrow> (\<exists>j<4. bit s0 (n + j))" for n
    unfolding s2_def using smear_step [of s1 2 s0 n, OF b1] by simp
  have b3: "bit s3 n \<longleftrightarrow> (\<exists>j<8. bit s0 (n + j))" for n
    unfolding s3_def using smear_step [of s2 4 s0 n, OF b2] by simp
  have b4: "bit s4 n \<longleftrightarrow> (\<exists>j<16. bit s0 (n + j))" for n
    unfolding s4_def using smear_step [of s3 8 s0 n, OF b3] by simp
  have b5: "bit s5 n \<longleftrightarrow> (\<exists>j<32. bit s0 (n + j))" for n
    unfolding s5_def using smear_step [of s4 16 s0 n, OF b4] by simp
  have b6: "bit s6 n \<longleftrightarrow> (\<exists>j<64. bit s0 (n + j))" for n
    unfolding s6_def using smear_step [of s5 32 s0 n, OF b5] by simp
  have "alloc_size s = s6 + 1"
    unfolding alloc_size_def Let_def s0_def s1_def s2_def s3_def s4_def s5_def s6_def
    by (rule refl)
  then have "alloc_size s - 1 = s6"
    by simp
  then show ?thesis
    using b6 [of n] by (simp only: s0_def)
qed


lemma bit_imp_exp_le_unat: "bit (w :: 'a::len word) m \<Longrightarrow> 2 ^ m \<le> unat w"
proof (rule ccontr)
  assume b: "bit w m" and "\<not> 2 ^ m \<le> unat w"
  then have "unat w div 2 ^ m = 0"
    by simp
  then have "\<not> bit (unat w) m"
    by (simp add: bit_iff_odd)
  with b show False
    by (simp add: bit_unsigned_iff)
qed

lemma no_upper_bits_imp_unat_less:
  assumes "\<And>m. n \<le> m \<Longrightarrow> \<not> bit (w :: 'a::len word) m"
  shows "unat w < 2 ^ n"
proof -
  have "take_bit n (unat w) = unat w"
  proof (rule bit_eqI)
    fix k
    show "bit (take_bit n (unat w)) k \<longleftrightarrow> bit (unat w) k"
      using assms [of k] by (cases "k < n") (auto simp: bit_take_bit_iff bit_unsigned_iff)
  qed
  then show ?thesis
    by (metis take_bit_nat_less_exp)
qed

lemma alloc_size_eq_exp:
  "alloc_size s = 2 ^ (LEAST L. unat (s - 1) < 2 ^ L)"
proof -
  define x where "x = s - 1"
  define L where "L = (LEAST L. unat x < 2 ^ L)"
  have x64: "unat x < 2 ^ 64"
    using unsigned_less [of x] by simp
  then have L64: "L \<le> 64"
    unfolding L_def by (rule Least_le)
  have xL: "unat x < 2 ^ L"
    unfolding L_def using x64 by (rule LeastI)
  have below: "2 ^ k \<le> unat x" if "k < L" for k
    using not_less_Least [of k "\<lambda>L. unat x < 2 ^ L"] that
    by (simp add: L_def not_less)
  have bits: "bit (alloc_size s - 1) n \<longleftrightarrow> n < L" for n
  proof
    assume "bit (alloc_size s - 1) n"
    then obtain j where "bit x (n + j)"
      by (auto simp: alloc_size_bits x_def)
    then have "2 ^ (n + j) \<le> unat x"
      by (rule bit_imp_exp_le_unat)
    with xL have "(2::nat) ^ (n + j) < 2 ^ L"
      by linarith
    then show "n < L"
      by simp
  next
    assume "n < L"
    then have le: "2 ^ n \<le> unat x"
      by (rule below)
    show "bit (alloc_size s - 1) n"
    proof (rule ccontr)
      assume "\<not> bit (alloc_size s - 1) n"
      then have none: "\<not> bit x (n + j)" if "j < 64" for j
        using that by (auto simp: alloc_size_bits x_def)
      have "\<not> bit x m" if "n \<le> m" for m
      proof (cases "m - n < 64")
        case True
        with none [of "m - n"] that show ?thesis
          by simp
      next
        case False
        then have "64 \<le> m"
          by linarith
        then show ?thesis
          using bit_imp_le_length [of x m] by auto
      qed
      then have "unat x < 2 ^ n"
        by (rule no_upper_bits_imp_unat_less)
      with le show False
        by linarith
    qed
  qed
  have "alloc_size s - 1 = mask L"
  proof (rule bit_word_eqI)
    fix n
    assume "n < LENGTH(64)"
    then show "bit (alloc_size s - 1) n \<longleftrightarrow> bit (mask L :: 64 word) n"
      using L64 by (simp add: bits bit_mask_iff)
  qed
  then have "alloc_size s = mask L + 1"
    by (metis diff_add_cancel)
  then show ?thesis
    by (simp add: mask_eq_decr_exp L_def x_def)
qed


lemma alloc_size_cases:
  "\<exists>L\<le>64. alloc_size s = 2 ^ L \<and> unat (s - 1) < 2 ^ L \<and> (\<forall>k<L. 2 ^ k \<le> unat (s - 1))"
proof -
  define L where "L = (LEAST L. unat (s - 1) < 2 ^ L)"
  have x64: "unat (s - 1) < 2 ^ 64"
    using unsigned_less [of "s - 1"] by simp
  then have "L \<le> 64"
    unfolding L_def by (rule Least_le)
  moreover have "alloc_size s = 2 ^ L"
    by (simp add: alloc_size_eq_exp L_def)
  moreover have "unat (s - 1) < 2 ^ L"
    unfolding L_def using x64 by (rule LeastI)
  moreover have "2 ^ k \<le> unat (s - 1)" if "k < L" for k
    using not_less_Least [of k "\<lambda>L. unat (s - 1) < 2 ^ L"] that
    by (simp add: L_def not_less)
  ultimately show ?thesis
    by blast
qed

lemma pow2_or_zero_alloc_size: "pow2_or_zero (alloc_size s)"
proof -
  obtain L where L: "L \<le> 64" "alloc_size s = 2 ^ L"
    using alloc_size_cases [of s] by blast
  show ?thesis
  proof (cases "L = 64")
    case True
    with L show ?thesis
      by (simp add: pow2_or_zero_def)
  next
    case False
    with L have "L < 64"
      by simp
    with L show ?thesis
      unfolding pow2_or_zero_def by blast
  qed
qed

lemma is_pow2_exp: "is_pow2 (2 ^ k)"
  unfolding is_pow2_def by (rule bexI [of _ k]) (simp_all add: less_imp_le)

lemma unat_exp_64: "L < 64 \<Longrightarrow> unat (2 ^ L :: 64 word) = 2 ^ L"
proof -
  assume "L < 64"
  then have "(2::nat) ^ L < 2 ^ 64"
    by (rule power_strict_increasing) simp
  then have "(2::nat) ^ L < 2 ^ LENGTH(64)"
    by simp
  moreover have "word_of_nat (2 ^ L) = (2 ^ L :: 64 word)"
    by simp
  ultimately show ?thesis
    by (rule of_nat_inverse [rotated])
qed

lemma alloc_size_least:
  assumes "0 < unat s" "unat s \<le> 2 ^ 63"
  shows "least_pow2_ge (unat (alloc_size s)) (unat s)"
proof -
  obtain L where L: "L \<le> 64" "alloc_size s = 2 ^ L" "unat (s - 1) < 2 ^ L"
    "\<And>k. k < L \<Longrightarrow> 2 ^ k \<le> unat (s - 1)"
    using alloc_size_cases [of s] by blast
  have "s \<noteq> 0"
    using assms(1) by auto
  then have s1: "unat (s - 1) = unat s - 1"
    by (rule unat_minus_one)
  have "L \<le> 63"
  proof (rule ccontr)
    assume "\<not> L \<le> 63"
    then have "(2::nat) ^ 63 \<le> unat (s - 1)"
      using L(4) [of 63] by simp
    with s1 assms show False
      by linarith
  qed
  then have u: "unat (alloc_size s) = 2 ^ L"
    using L(2) by (simp add: unat_exp_64)
  have "unat s \<le> 2 ^ L"
    using L(3) s1 by linarith
  moreover have "d < unat s" if "d < 2 ^ L" "is_pow2 d" for d
  proof -
    from that(2) obtain k where k: "d = 2 ^ k"
      unfolding is_pow2_def by blast
    with that(1) have "k < L"
      by simp
    then have "2 ^ k \<le> unat (s - 1)"
      by (rule L(4))
    with k s1 assms(1) show ?thesis
      by linarith
  qed
  ultimately show ?thesis
    unfolding least_pow2_ge_def u by (simp add: is_pow2_exp)
qed

lemma alloc_size_overflow:
  assumes "s = 0 \<or> 2 ^ 63 < unat s"
  shows "alloc_size s = 0"
proof -
  obtain L where L: "L \<le> 64" "alloc_size s = 2 ^ L" "unat (s - 1) < 2 ^ L"
    using alloc_size_cases [of s] by blast
  have "2 ^ 63 \<le> unat (s - 1)"
  proof (cases "s = 0")
    case True
    then show ?thesis
      by (simp add: unsigned_minus_1_eq_mask mask_eq_exp_minus_1)
  next
    case False
    then have "unat (s - 1) = unat s - 1"
      by (rule unat_minus_one)
    with False assms show ?thesis
      by simp
  qed
  with L(3) have "(2::nat) ^ 63 < 2 ^ L"
    by linarith
  then have "63 < L"
    by (rule power_less_imp_less_exp [rotated]) simp
  with L(1) have "L = 64"
    by simp
  with L(2) show ?thesis
    by simp
qed

text \<open>What \<^verbatim>\<open>push_back\<close> asks \<^verbatim>\<open>reserve\<close> for.\<close>

lemma alloc_size_succ:
  assumes "unat c < 2 ^ 63"
  shows "c < alloc_size (c + 1)"
    and "least_pow2_ge (unat (alloc_size (c + 1))) (unat c + 1)"
    and "unat (alloc_size (c + 1)) \<le> max 1 (2 * unat c)"
proof -
  have c1: "unat (c + 1) = unat c + 1"
    using assms by (simp add: unat_word_ariths)
  then have pos: "0 < unat (c + 1)" and le: "unat (c + 1) \<le> 2 ^ 63"
    using assms by simp_all
  from alloc_size_least [OF pos le]
  show l: "least_pow2_ge (unat (alloc_size (c + 1))) (unat c + 1)"
    by (simp add: c1)
  then have "unat c + 1 \<le> unat (alloc_size (c + 1))"
    by (simp add: least_pow2_ge_def)
  then show "c < alloc_size (c + 1)"
    by (simp add: word_less_nat_alt)
  obtain L where L: "L \<le> 64" "alloc_size (c + 1) = 2 ^ L"
    "\<And>k. k < L \<Longrightarrow> 2 ^ k \<le> unat (c + 1 - 1)"
    using alloc_size_cases [of "c + 1"] by blast
  show "unat (alloc_size (c + 1)) \<le> max 1 (2 * unat c)"
  proof (cases L)
    case 0
    with L(2) show ?thesis
      by simp
  next
    case (Suc k)
    then have k: "2 ^ k \<le> unat c"
      using L(3) [of k] by simp
    from k assms have "(2::nat) ^ k < 2 ^ 63"
      by (rule le_less_trans)
    then have "k < 63"
      by (rule power_less_imp_less_exp [rotated]) simp
    then have "L < 64"
      using Suc by simp
    then have "unat (alloc_size (c + 1)) = 2 ^ L"
      using L(2) by (simp add: unat_exp_64)
    with k Suc show ?thesis
      by simp
  qed
qed

section \<open>Memory, and what the operations do to a well-formed vector\<close>

lemma lookup_live: "lookup m a = Some b \<Longrightarrow> a < length (blocks m)"
  by (simp add: lookup_def split: if_splits)

lemma lookup_fresh: "lookup m (length (blocks m)) = None"
  by (simp add: lookup_def)

lemma allocate_ok:
  "unat n \<le> free_slots m \<Longrightarrow>
   \<exists>m1. allocate m n = (Inr (length (blocks m)), m1) \<and>
        lookup m1 = (lookup m)(length (blocks m) \<mapsto> replicate (unat n) None) \<and>
        free_slots m1 = free_slots m - unat n \<and>
        length (blocks m1) = Suc (length (blocks m))"
  by (auto simp: allocate_def lookup_def fun_eq_iff nth_append)

lemma allocate_fails:
  "\<not> unat n \<le> free_slots m \<Longrightarrow> allocate m n = (Inl bad_alloc, m)"
  by (simp add: allocate_def)

lemma construct_ok:
  "lookup m a = Some b \<Longrightarrow> i < length b \<Longrightarrow>
   \<exists>m1. construct m (Some a) i x = (Inr (), m1) \<and>
        lookup m1 = (lookup m)(a \<mapsto> b[i := Some x]) \<and>
        free_slots m1 = free_slots m \<and>
        length (blocks m1) = length (blocks m)"
  by (auto simp: construct_def lookup_def fun_eq_iff split: if_splits)

lemma deallocate_ok:
  "lookup m a = Some b \<Longrightarrow> length b = unat n \<Longrightarrow>
   \<exists>m1. deallocate m (Some a) n = (Inr (), m1) \<and>
        lookup m1 = (lookup m)(a := None) \<and>
        free_slots m1 = free_slots m + unat n \<and>
        length (blocks m1) = length (blocks m)"
  by (auto simp: deallocate_def lookup_def fun_eq_iff split: if_splits)

lemma deref_ok:
  "lookup m a = Some b \<Longrightarrow> i < length b \<Longrightarrow> b ! i = Some x \<Longrightarrow> deref m (Some a) i = Inr x"
  by (simp add: deref_def)

lemma copy_elems_ok:
  assumes "lookup m src = Some bs" "lookup m dst = Some bd" "src \<noteq> dst"
    and "unat n \<le> length bs" "unat n \<le> length bd"
    and "\<forall>k<unat n. bs ! k \<noteq> None"
  shows "\<exists>m'. copy_elems m (Some dst) (Some src) i n = (Inr (), m') \<and>
           length (blocks m') = length (blocks m) \<and>
           free_slots m' = free_slots m \<and>
           lookup m' = (lookup m)(dst \<mapsto>
             map (\<lambda>k. if unat i \<le> k \<and> k < unat n then bs ! k else bd ! k) [0..<length bd])"
  using assms
proof (induction m "Some dst :: pointer" "Some src :: pointer" i n arbitrary: bd rule: copy_elems.induct)
  case (1 m i n)
  show ?case
  proof (cases "i < n")
    case False
    then have "unat n \<le> unat i"
      by (simp add: word_less_nat_alt)
    then have "map (\<lambda>k. if unat i \<le> k \<and> k < unat n then bs ! k else bd ! k) [0..<length bd] = bd"
      by (intro nth_equalityI) auto
    moreover have "(lookup m)(dst \<mapsto> bd) = lookup m"
      using "1.prems"(2) by (auto simp: fun_eq_iff)
    ultimately show ?thesis
      using False by (simp add: copy_elems.simps [of m])
  next
    case True
    then have lt: "unat i < unat n" and suc: "unat (i + 1) = Suc (unat i)"
      by (simp_all add: word_less_nat_alt unat_inc_less)
    from lt "1.prems" obtain x where x: "bs ! unat i = Some x"
      by auto
    have d: "deref m (Some src) (unat i) = Inr x"
      using "1.prems"(1,4) lt x by (simp add: deref_ok)
    obtain m1 where m1: "construct m (Some dst) (unat i) x = (Inr (), m1)"
      "lookup m1 = (lookup m)(dst \<mapsto> bd[unat i := Some x])"
      "free_slots m1 = free_slots m" "length (blocks m1) = length (blocks m)"
      using construct_ok [OF "1.prems"(2), of "unat i" x] lt "1.prems"(5) by auto
    have "\<exists>m'. copy_elems m1 (Some dst) (Some src) (i + 1) n = (Inr (), m') \<and>
           length (blocks m') = length (blocks m1) \<and>
           free_slots m' = free_slots m1 \<and>
           lookup m' = (lookup m1)(dst \<mapsto>
             map (\<lambda>k. if unat (i + 1) \<le> k \<and> k < unat n then bs ! k else bd[unat i := Some x] ! k)
               [0..<length (bd[unat i := Some x])])"
      using "1.prems" m1(2)
      by (intro "1.hyps" [OF True d m1(1) [symmetric] refl]) simp_all
    then obtain m' where m': "copy_elems m1 (Some dst) (Some src) (i + 1) n = (Inr (), m')"
      "length (blocks m') = length (blocks m1)" "free_slots m' = free_slots m1"
      "lookup m' = (lookup m1)(dst \<mapsto>
             map (\<lambda>k. if unat (i + 1) \<le> k \<and> k < unat n then bs ! k else bd[unat i := Some x] ! k)
               [0..<length (bd[unat i := Some x])])"
      by blast
    have eq: "map (\<lambda>k. if unat (i + 1) \<le> k \<and> k < unat n then bs ! k else bd[unat i := Some x] ! k)
               [0..<length (bd[unat i := Some x])] =
          map (\<lambda>k. if unat i \<le> k \<and> k < unat n then bs ! k else bd ! k) [0..<length bd]"
      using lt x "1.prems"(5) by (intro nth_equalityI) (auto simp: suc nth_list_update)
    have "lookup m' = (lookup m)(dst \<mapsto>
             map (\<lambda>k. if unat i \<le> k \<and> k < unat n then bs ! k else bd ! k) [0..<length bd])"
      unfolding m'(4) eq m1(2) by (rule fun_upd_upd)
    moreover have "copy_elems m (Some dst) (Some src) i n = (Inr (), m')"
      using True d m1(1) m'(1) by (simp add: copy_elems.simps [of m])
    moreover have "length (blocks m') = length (blocks m)" "free_slots m' = free_slots m"
      using m'(2,3) m1(3,4) by simp_all
    ultimately show ?thesis
      by blast
  qed
qed

lemma well_formed_null:
  "well_formed m v \<Longrightarrow> v_data v = None \<Longrightarrow> v_capacity v = 0 \<and> v_size v = 0 \<and> storage m v = []"
  by (auto simp: well_formed_def storage_def)

lemma well_formed_live:
  "well_formed m v \<Longrightarrow> v_data v = Some a \<Longrightarrow>
   \<exists>b. lookup m a = Some b \<and> storage m v = b \<and> length b = unat (v_capacity v) \<and>
       unat (v_size v) \<le> unat (v_capacity v) \<and> (\<forall>k<unat (v_size v). b ! k \<noteq> None)"
  by (auto simp: well_formed_def storage_def list_all_length word_le_nat_alt split: option.splits)

lemma well_formed_liveI:
  "v_data v = Some a \<Longrightarrow> lookup m a = Some b \<Longrightarrow> length b = unat (v_capacity v) \<Longrightarrow>
   unat (v_size v) \<le> unat (v_capacity v) \<Longrightarrow> (\<And>k. k < unat (v_size v) \<Longrightarrow> b ! k \<noteq> None) \<Longrightarrow>
   well_formed m v"
  by (auto simp: well_formed_def list_all_length word_le_nat_alt)

lemma copied_block:
  "s \<le> length b \<Longrightarrow> s \<le> n \<Longrightarrow>
   map (\<lambda>k. if unat (0 :: size_t) \<le> k \<and> k < s then b ! k else replicate n None ! k) [0..<length (replicate n None)]
     = take s b @ replicate (n - s) None"
  by (intro nth_equalityI) (auto simp: nth_append)

lemma reserve_grow:
  assumes wf: "well_formed m v" and lt: "v_capacity v < n" and mem: "unat n \<le> free_slots m"
  shows "\<exists>m'. reserve m v n = (Inr (v\<lparr>v_capacity := n, v_data := Some (length (blocks m))\<rparr>), m') \<and>
           lookup m' =
             (case v_data v of None \<Rightarrow> lookup m | Some a \<Rightarrow> (lookup m)(a := None))
               (length (blocks m) \<mapsto>
                  take (unat (v_size v)) (storage m v) @ replicate (unat n - unat (v_size v)) None) \<and>
           free_slots m' + unat n = free_slots m + unat (v_capacity v) \<and>
           length (blocks m') = Suc (length (blocks m))"
proof -
  define a where "a = length (blocks m)"
  obtain m1 where m1: "allocate m n = (Inr a, m1)"
    "lookup m1 = (lookup m)(a \<mapsto> replicate (unat n) None)"
    "free_slots m1 = free_slots m - unat n" "length (blocks m1) = Suc (length (blocks m))"
    using allocate_ok [OF mem] unfolding a_def by blast
  have nle: "\<not> n \<le> v_capacity v"
    using lt by simp
  show ?thesis
  proof (cases "v_data v")
    case None
    with wf have z: "v_capacity v = 0" "v_size v = 0" "storage m v = []"
      using well_formed_null by blast+
    have "copy_elems m1 (Some a) None 0 0 = (Inr (), m1)"
      by (simp add: copy_elems.simps)
    moreover have "deallocate m1 None 0 = (Inr (), m1)"
      by (simp add: deallocate_def)
    ultimately have "reserve m v n = (Inr (v\<lparr>v_capacity := n, v_data := Some a\<rparr>), m1)"
      using nle m1(1) None z by (simp add: reserve_def)
    then show ?thesis
      using m1 None z mem unfolding a_def by simp
  next
    case (Some p)
    with wf obtain b where b: "lookup m p = Some b" "storage m v = b"
      "length b = unat (v_capacity v)" "unat (v_size v) \<le> unat (v_capacity v)"
      "\<forall>k<unat (v_size v). b ! k \<noteq> None"
      using well_formed_live by blast
    have pa: "p \<noteq> a"
      using lookup_live [OF b(1)] by (simp add: a_def)
    have sn: "unat (v_size v) \<le> unat n"
      using b(4) lt by (simp add: word_less_nat_alt)
    have "\<exists>m2. copy_elems m1 (Some a) (Some p) 0 (v_size v) = (Inr (), m2) \<and>
           length (blocks m2) = length (blocks m1) \<and>
           free_slots m2 = free_slots m1 \<and>
           lookup m2 = (lookup m1)(a \<mapsto>
             map (\<lambda>k. if unat (0 :: size_t) \<le> k \<and> k < unat (v_size v) then b ! k
                      else replicate (unat n) None ! k) [0..<length (replicate (unat n) (None :: 'a option))])"
      using b pa sn by (intro copy_elems_ok) (simp_all add: m1(2))
    then obtain m2 where m2: "copy_elems m1 (Some a) (Some p) 0 (v_size v) = (Inr (), m2)"
      "length (blocks m2) = length (blocks m1)" "free_slots m2 = free_slots m1"
      "lookup m2 = (lookup m1)(a \<mapsto>
         take (unat (v_size v)) b @ replicate (unat n - unat (v_size v)) None)"
      using copied_block [of "unat (v_size v)" b "unat n"] b(3,4) sn by auto
    have "lookup m2 p = Some b"
      using pa b(1) by (simp add: m2(4) m1(2))
    from deallocate_ok [OF this b(3)]
    obtain m3 where m3: "deallocate m2 (Some p) (v_capacity v) = (Inr (), m3)"
      "lookup m3 = (lookup m2)(p := None)"
      "free_slots m3 = free_slots m2 + unat (v_capacity v)"
      "length (blocks m3) = length (blocks m2)"
      by blast
    have "reserve m v n = (Inr (v\<lparr>v_capacity := n, v_data := Some a\<rparr>), m3)"
      using nle m1(1) m2(1) m3(1) Some by (simp add: reserve_def)
    moreover have "lookup m3 = ((lookup m)(p := None))(a \<mapsto>
         take (unat (v_size v)) b @ replicate (unat n - unat (v_size v)) None)"
      using pa by (simp add: m3(2) m2(4) m1(2) fun_upd_twist)
    ultimately show ?thesis
      using m1 m2 m3 Some b(2) mem unfolding a_def by simp
  qed
qed

lemma append_slot:
  assumes "v_data v0 = Some a" "lookup m a = Some b" "length b = unat (v_capacity v0)"
    and "unat (v_size v0) < unat (v_capacity v0)" "\<forall>k<unat (v_size v0). b ! k \<noteq> None"
  defines "v1 \<equiv> v0\<lparr>v_size := v_size v0 + 1\<rparr>"
  shows "\<exists>m'. construct m (v_data v1) (unat (v_size v1 - 1)) x = (Inr (), m') \<and>
           lookup m' = (lookup m)(a \<mapsto> b[unat (v_size v0) := Some x]) \<and>
           free_slots m' = free_slots m \<and>
           length (blocks m') = length (blocks m) \<and>
           deref m' (v_data v1) (unat (v_size v1 - 1)) = Inr x \<and>
           well_formed m' v1 \<and>
           elems m' v1 = map the (take (unat (v_size v0)) b) @ [x]"
proof -
  have s1: "unat (v_size v0 + 1) = Suc (unat (v_size v0))"
    using assms(4) by (intro unat_inc_less [of _ "v_capacity v0"]) (simp add: word_less_nat_alt)
  have i: "unat (v_size v0) < length b"
    using assms(3,4) by simp
  obtain m' where m': "construct m (Some a) (unat (v_size v0)) x = (Inr (), m')"
    "lookup m' = (lookup m)(a \<mapsto> b[unat (v_size v0) := Some x])"
    "free_slots m' = free_slots m" "length (blocks m') = length (blocks m)"
    using construct_ok [OF assms(2) i] by blast
  have "deref m' (Some a) (unat (v_size v0)) = Inr x"
    using i by (intro deref_ok [of _ _ "b[unat (v_size v0) := Some x]"]) (simp_all add: m'(2))
  moreover have "well_formed m' v1"
  proof (rule well_formed_liveI [of _ a _ "b[unat (v_size v0) := Some x]"])
    fix k
    assume "k < unat (v_size v1)"
    then show "b[unat (v_size v0) := Some x] ! k \<noteq> None"
      using assms(5) i by (cases "k = unat (v_size v0)") (simp_all add: v1_def s1)
  qed (use assms(1,3,4) in \<open>simp_all add: v1_def m'(2) s1\<close>)
  moreover have "elems m' v1 = map the (take (unat (v_size v0)) b) @ [x]"
    using i assms(1) by (simp add: elems_def storage_def v1_def m'(2) s1 take_Suc_conv_app_nth)
  ultimately show ?thesis
    using m' assms(1) by (simp add: v1_def)
qed

lemma vector_eqI:
  "v_data a = v_data b \<Longrightarrow> v_size a = v_size b \<Longrightarrow> v_capacity a = v_capacity b \<Longrightarrow>
   a = (b :: vector)"
  by (cases a; cases b) simp

lemma well_formed_frame:
  assumes "well_formed m v" "\<And>p. v_data v = Some p \<Longrightarrow> lookup m' p = lookup m p"
  shows "well_formed m' v \<and> storage m' v = storage m v \<and> elems m' v = elems m v"
  using assms by (cases "v_data v") (auto simp: well_formed_def storage_def elems_def)

lemma deref_live:
  "deref m p i = Inr x \<Longrightarrow> \<exists>q b. p = Some q \<and> lookup m q = Some b"
  by (auto simp: deref_def split: option.splits if_splits)

lemma deref_same_block:
  "lookup m' q = lookup m q \<Longrightarrow> deref m' (Some q) i = deref m (Some q) i"
  by (simp add: deref_def)

text \<open>
  \<^verbatim>\<open>push_back\<close> on a well-formed vector, when the argument can be read and, in case a
  new block is needed, does not designate a slot of the vector's own storage.
\<close>

lemma push_back_ok:
  assumes wf: "well_formed m v" and small: "unat (v_capacity v) < 2 ^ 63"
    and mem: "v_size v + 1 < v_capacity v \<or> unat (alloc_size (v_capacity v + 1)) \<le> free_slots m"
    and rd: "read m r = Inr x"
    and own: "v_size v + 1 < v_capacity v \<or> \<not> refers_into r v"
  shows "\<exists>v' m'. push_back m v r = (Inr v', m') \<and>
           well_formed m' v' \<and>
           v_size v' = v_size v + 1 \<and>
           elems m' v' = elems m v @ [x] \<and>
           deref m' (v_data v') (unat (v_size v' - 1)) = Inr x \<and>
           v_capacity v' =
             (if v_size v + 1 < v_capacity v then v_capacity v else alloc_size (v_capacity v + 1)) \<and>
           v_data v' =
             (if v_size v + 1 < v_capacity v then v_data v else Some (length (blocks m))) \<and>
           length (blocks m') =
             (if v_size v + 1 < v_capacity v then length (blocks m) else Suc (length (blocks m))) \<and>
           free_slots m' + unat (v_capacity v') = free_slots m + unat (v_capacity v) \<and>
           (\<forall>p. Some p \<noteq> v_data v \<longrightarrow> p < length (blocks m) \<longrightarrow> lookup m' p = lookup m p)"
proof (cases "v_size v + 1 < v_capacity v")
  case True
  have sc: "unat (v_size v) \<le> unat (v_capacity v)"
    using wf by (simp add: well_formed_def word_le_nat_alt)
  with small have "unat (v_size v + 1) = unat (v_size v) + 1"
    by (simp add: unat_word_ariths)
  with True have lt: "unat (v_size v) < unat (v_capacity v)"
    by (simp add: word_less_nat_alt)
  then have "v_capacity v \<noteq> 0"
    by auto
  with wf obtain a where a: "v_data v = Some a"
    using well_formed_null [of m v] by (cases "v_data v") auto
  with wf obtain b where b: "lookup m a = Some b" "storage m v = b"
    "length b = unat (v_capacity v)" "\<forall>k<unat (v_size v). b ! k \<noteq> None"
    using well_formed_live by blast
  from append_slot [OF a b(1,3) lt b(4), of x]
  obtain m' where m': "construct m (v_data (v\<lparr>v_size := v_size v + 1\<rparr>))
        (unat (v_size (v\<lparr>v_size := v_size v + 1\<rparr>) - 1)) x = (Inr (), m')"
    "lookup m' = (lookup m)(a \<mapsto> b[unat (v_size v) := Some x])"
    "free_slots m' = free_slots m" "length (blocks m') = length (blocks m)"
    "deref m' (v_data (v\<lparr>v_size := v_size v + 1\<rparr>))
        (unat (v_size (v\<lparr>v_size := v_size v + 1\<rparr>) - 1)) = Inr x"
    "well_formed m' (v\<lparr>v_size := v_size v + 1\<rparr>)"
    "elems m' (v\<lparr>v_size := v_size v + 1\<rparr>) = map the (take (unat (v_size v)) b) @ [x]"
    by blast
  have "push_back m v r = (Inr (v\<lparr>v_size := v_size v + 1\<rparr>), m')"
    using True m'(1) rd by (simp add: push_back_def construct_from_def Let_def)
  moreover have "elems m v = map the (take (unat (v_size v)) b)"
    using b(2) by (simp add: elems_def)
  ultimately show ?thesis
    using True m' a by (auto simp del: add_diff_cancel_right')
next
  case False
  define n where "n = alloc_size (v_capacity v + 1)"
  define a where "a = length (blocks m)"
  have sc: "unat (v_size v) \<le> unat (v_capacity v)"
    using wf by (simp add: well_formed_def word_le_nat_alt)
  have n: "v_capacity v < n" "unat (v_capacity v) < unat n"
    using alloc_size_succ(1) [OF small] by (simp_all add: n_def word_less_nat_alt)
  have memn: "unat n \<le> free_slots m"
    using mem False by (simp add: n_def)
  from reserve_grow [OF wf n(1) memn]
  obtain m1 where m1: "reserve m v n = (Inr (v\<lparr>v_capacity := n, v_data := Some a\<rparr>), m1)"
    "lookup m1 =
       (case v_data v of None \<Rightarrow> lookup m | Some a \<Rightarrow> (lookup m)(a := None))
         (a \<mapsto> take (unat (v_size v)) (storage m v) @ replicate (unat n - unat (v_size v)) None)"
    "free_slots m1 + unat n = free_slots m + unat (v_capacity v)"
    "length (blocks m1) = Suc (length (blocks m))"
    unfolding a_def by blast
  define b1 where "b1 = take (unat (v_size v)) (storage m v) @ replicate (unat n - unat (v_size v)) None"
  define v0 where "v0 = v\<lparr>v_capacity := n, v_data := Some a\<rparr>"
  have st: "length (storage m v) = unat (v_capacity v)" "\<forall>k<unat (v_size v). storage m v ! k \<noteq> None"
    using wf well_formed_null [of m v] well_formed_live [of m v]
    by (cases "v_data v"; fastforce)+
  have lb1: "length b1 = unat (v_capacity v0)"
    using sc n(2) st(1) by (simp add: b1_def v0_def)
  have full: "\<forall>k<unat (v_size v0). b1 ! k \<noteq> None"
    using st sc by (simp add: b1_def v0_def nth_append)
  have lk: "lookup m1 a = Some b1"
    by (simp add: m1(2) b1_def)
  have room: "unat (v_size v0) < unat (v_capacity v0)"
    using sc n(2) by (simp add: v0_def)
  have "v_data v0 = Some a"
    by (simp add: v0_def)
  from append_slot [OF this lk lb1 room full, of x]
  obtain m' where m': "construct m1 (v_data (v0\<lparr>v_size := v_size v0 + 1\<rparr>))
        (unat (v_size (v0\<lparr>v_size := v_size v0 + 1\<rparr>) - 1)) x = (Inr (), m')"
    "lookup m' = (lookup m1)(a \<mapsto> b1[unat (v_size v0) := Some x])"
    "free_slots m' = free_slots m1" "length (blocks m') = length (blocks m1)"
    "deref m' (v_data (v0\<lparr>v_size := v_size v0 + 1\<rparr>))
        (unat (v_size (v0\<lparr>v_size := v_size v0 + 1\<rparr>) - 1)) = Inr x"
    "well_formed m' (v0\<lparr>v_size := v_size v0 + 1\<rparr>)"
    "elems m' (v0\<lparr>v_size := v_size v0 + 1\<rparr>) = map the (take (unat (v_size v0)) b1) @ [x]"
    by blast
  have rd1: "read m1 r = Inr x"
  proof (cases r)
    case (Outside y)
    with rd show ?thesis
      by (simp add: read_def)
  next
    case (Slot p i)
    with rd have d: "deref m p i = Inr x"
      by (simp add: read_def)
    from deref_live [OF d] obtain q b where q: "p = Some q" "lookup m q = Some b"
      by blast
    have "q \<noteq> a"
      using lookup_live [OF q(2)] by (simp add: a_def)
    moreover have "v_data v \<noteq> Some q"
      using own False Slot q(1) by (auto simp: refers_into_def)
    ultimately have "lookup m1 q = lookup m q"
      by (cases "v_data v") (simp_all add: m1(2))
    then have "deref m1 (Some q) i = deref m (Some q) i"
      by (rule deref_same_block)
    with d show ?thesis
      by (simp add: read_def Slot q(1))
  qed
  have pb: "push_back m v r = (Inr (v0\<lparr>v_size := v_size v0 + 1\<rparr>), m')"
    using False m1(1) m'(1) rd1
    by (simp add: push_back_def construct_from_def Let_def n_def v0_def)
  have el: "elems m v = map the (take (unat (v_size v0)) b1)"
    using st(1) sc by (simp add: elems_def b1_def v0_def)
  have frame: "lookup m' p = lookup m p" if "Some p \<noteq> v_data v" "p < length (blocks m)" for p
    using that by (cases "v_data v") (simp_all add: m'(2) m1(2) a_def)
  show ?thesis
    using False pb el m' m1(3,4) frame
    by (auto simp: v0_def n_def a_def simp del: add_diff_cancel_right')
qed

section \<open>Growth of the capacity\<close>

lemma alloc_size_small: "alloc_size 1 = 1" "alloc_size 2 = 2" "alloc_size 3 = 4" "alloc_size 5 = 8"
  by (simp_all add: alloc_size_def Let_def)

lemma reserve_result:
  "reserve m v n = (Inr v', m') \<Longrightarrow>
   v_size v' = v_size v \<and> v_capacity v' = (if n \<le> v_capacity v then v_capacity v else n)"
  by (auto simp: reserve_def split: if_splits prod.splits sum.splits)

lemma push_back_result:
  "push_back m v x = (Inr v', m') \<Longrightarrow>
   v_size v' = v_size v + 1 \<and>
   v_capacity v' =
     (if v_size v + 1 < v_capacity v then v_capacity v
      else if alloc_size (v_capacity v + 1) \<le> v_capacity v then v_capacity v
      else alloc_size (v_capacity v + 1))"
  by (auto simp: push_back_def construct_from_def Let_def dest!: reserve_result
      split: if_splits prod.splits sum.splits)

lemma push_back_pow2:
  "push_back m v x = (Inr v', m') \<Longrightarrow> pow2_or_zero (v_capacity v) \<Longrightarrow> pow2_or_zero (v_capacity v')"
  by (auto dest!: push_back_result simp: pow2_or_zero_alloc_size split: if_splits)

lemma push_backs_pow2:
  "push_backs m v xs = (Inr v', m') \<Longrightarrow> pow2_or_zero (v_capacity v) \<Longrightarrow> pow2_or_zero (v_capacity v')"
proof (induction xs arbitrary: m v)
  case Nil
  then show ?case by simp
next
  case (Cons x xs)
  from Cons.prems(1) obtain v1 m1 where s: "push_back m v x = (Inr v1, m1)"
    "push_backs m1 v1 xs = (Inr v', m')"
    by (auto split: prod.splits sum.splits)
  show ?case
    by (rule Cons.IH [OF s(2) push_back_pow2 [OF s(1) Cons.prems(2)]])
qed

lemma push_back_growth:
  assumes "push_back m v x = (Inr v', m')" "v_capacity v' \<noteq> v_capacity v"
  shows "least_pow2_ge (unat (v_capacity v')) (unat (v_capacity v) + 1)"
proof -
  from push_back_result [OF assms(1)] assms(2)
  have c: "v_capacity v' = alloc_size (v_capacity v + 1)" "\<not> alloc_size (v_capacity v + 1) \<le> v_capacity v"
    by (auto split: if_splits)
  have "unat (v_capacity v) < 2 ^ 63"
  proof (rule ccontr)
    assume "\<not> unat (v_capacity v) < 2 ^ 63"
    then have "v_capacity v + 1 = 0 \<or> 2 ^ 63 < unat (v_capacity v + 1)"
      by (cases "v_capacity v + 1 = 0") (simp_all add: unat_minus_one [of "v_capacity v + 1"] flip: less_eq_Suc_le, unat_arith?)
    then have "alloc_size (v_capacity v + 1) = 0"
      by (rule alloc_size_overflow)
    with c(2) show False
      by simp
  qed
  then show ?thesis
    unfolding c(1) by (rule alloc_size_succ(2))
qed

lemma well_formed_default: "well_formed m vector_default"
  by (simp add: well_formed_def vector_default_def)

lemma five_push_backs_capacity:
  assumes "push_backs m vector_default [a, b, c, d, e] = (Inr v5, m5)"
  shows "v_capacity v5 = 8 \<and> v_size v5 = 5"
proof -
  from assms obtain v1 m1 v2 m2 v3 m3 v4 m4 where
    p: "push_back m vector_default a = (Inr v1, m1)" "push_back m1 v1 b = (Inr v2, m2)"
      "push_back m2 v2 c = (Inr v3, m3)" "push_back m3 v3 d = (Inr v4, m4)"
      "push_back m4 v4 e = (Inr v5, m5)"
    by (auto split: prod.splits sum.splits)
  have 1: "v_size v1 = 1" "v_capacity v1 = 1"
    using push_back_result [OF p(1)] by (simp_all add: vector_default_def alloc_size_small word_le_nat_alt word_less_nat_alt)
  have 2: "v_size v2 = 2" "v_capacity v2 = 2"
    using push_back_result [OF p(2)] by (simp_all add: 1 alloc_size_small word_le_nat_alt word_less_nat_alt)
  have 3: "v_size v3 = 3" "v_capacity v3 = 4"
    using push_back_result [OF p(3)] by (simp_all add: 2 alloc_size_small word_le_nat_alt word_less_nat_alt)
  have 4: "v_size v4 = 4" "v_capacity v4 = 8"
    using push_back_result [OF p(4)] by (simp_all add: 3 alloc_size_small word_le_nat_alt word_less_nat_alt)
  show ?thesis
    using push_back_result [OF p(5)] by (simp add: 4 word_le_nat_alt word_less_nat_alt)
qed

lemma five_push_backs_return:
  assumes "12 \<le> free_slots m"
  shows "\<exists>v5 m5. push_backs m vector_default
           [Outside a, Outside b, Outside c, Outside d, Outside e] = (Inr v5, m5)"
proof -
  have rd: "read m' (Outside y) = Inr y" "\<not> refers_into (Outside y) w" for m' :: "'a memory" and y w
    by (simp_all add: read_def refers_into_def)
  have w0: "well_formed m vector_default"
    by (rule well_formed_default)
  obtain v1 m1 where 1: "push_back m vector_default (Outside a) = (Inr v1, m1)" "well_formed m1 v1"
    "v_capacity v1 = 1" "v_size v1 = 1" "free_slots m1 + 1 = free_slots m"
    using push_back_ok [OF w0, where r = "Outside a" and x = a] assms rd
    by (auto simp: vector_default_def alloc_size_small word_less_nat_alt)
  obtain v2 m2 where 2: "push_back m1 v1 (Outside b) = (Inr v2, m2)" "well_formed m2 v2"
    "v_capacity v2 = 2" "v_size v2 = 2" "free_slots m2 + 2 = free_slots m"
    using push_back_ok [OF 1(2), where r = "Outside b" and x = b] assms 1(3,4,5) rd
    by (auto simp: alloc_size_small word_less_nat_alt)
  obtain v3 m3 where 3: "push_back m2 v2 (Outside c) = (Inr v3, m3)" "well_formed m3 v3"
    "v_capacity v3 = 4" "v_size v3 = 3" "free_slots m3 + 4 = free_slots m"
    using push_back_ok [OF 2(2), where r = "Outside c" and x = c] assms 2(3,4,5) rd
    by (auto simp: alloc_size_small word_less_nat_alt)
  obtain v4 m4 where 4: "push_back m3 v3 (Outside d) = (Inr v4, m4)" "well_formed m4 v4"
    "v_capacity v4 = 8" "v_size v4 = 4" "free_slots m4 + 8 = free_slots m"
    using push_back_ok [OF 3(2), where r = "Outside d" and x = d] assms 3(3,4,5) rd
    by (auto simp: alloc_size_small word_less_nat_alt)
  obtain v5 m5 where 5: "push_back m4 v4 (Outside e) = (Inr v5, m5)"
    using push_back_ok [OF 4(2), where r = "Outside e" and x = e] 4(3,4) rd
    by (auto simp: word_less_nat_alt)
  show ?thesis
    using 1(1) 2(1) 3(1) 4(1) 5 by simp
qed

lemma replicate_numeral: "replicate (numeral k) x = x # replicate (pred_numeral k) x"
  by (simp add: numeral_eq_Suc)

lemmas run_simps = push_back_def construct_from_def read_def reserve_def allocate_def construct_def
  deref_def deallocate_def
  lookup_def Let_def vector_default_def copy_elems.simps word_less_nat_alt word_le_nat_alt
  replicate_numeral

lemma is_pow2_4: "is_pow2 4"
  unfolding is_pow2_def by (rule bexI [of _ 2]) simp_all

text \<open>
  C1, as amended. Starting from a default-constructed vector, after any sequence of
  \<^verbatim>\<open>push_back\<close> calls the capacity is one of \<open>0, 1, 2, 4, 8, \<dots>\<close>; a call that changes
  the capacity leaves the smallest power of two that is at least the old capacity plus
  one (not: at least the size); five calls from the empty vector give capacity 8, and
  with arguments that are objects outside the vector they all return when the allocator
  has 12 slots left.
\<close>

theorem push_back_capacity_growth:
  "(push_backs m vector_default xs = (Inr v, m') \<longrightarrow> pow2_or_zero (v_capacity v)) \<and>
   (push_backs m vector_default xs = (Inr v, m') \<and> push_back m' v x = (Inr v2, m2) \<and>
      v_capacity v2 \<noteq> v_capacity v \<longrightarrow>
      least_pow2_ge (unat (v_capacity v2)) (unat (v_capacity v) + 1)) \<and>
   (push_backs m vector_default [r1, r2, r3, r4, r5] = (Inr v5, m5) \<longrightarrow> v_capacity v5 = 8) \<and>
   (12 \<le> free_slots m \<longrightarrow>
      (\<exists>v5 m5. push_backs m vector_default
         [Outside a, Outside b, Outside c, Outside d, Outside e] = (Inr v5, m5)))"
proof (intro conjI impI)
  assume "push_backs m vector_default xs = (Inr v, m')"
  then show "pow2_or_zero (v_capacity v)"
    by (rule push_backs_pow2) (simp add: pow2_or_zero_def vector_default_def)
next
  assume "push_backs m vector_default xs = (Inr v, m') \<and> push_back m' v x = (Inr v2, m2) \<and>
      v_capacity v2 \<noteq> v_capacity v"
  then have "push_back m' v x = (Inr v2, m2)" "v_capacity v2 \<noteq> v_capacity v"
    by simp_all
  then show "least_pow2_ge (unat (v_capacity v2)) (unat (v_capacity v) + 1)"
    by (rule push_back_growth)
next
  assume "push_backs m vector_default [r1, r2, r3, r4, r5] = (Inr v5, m5)"
  then show "v_capacity v5 = 8"
    by (simp add: five_push_backs_capacity)
next
  assume "12 \<le> free_slots m"
  then show "\<exists>v5 m5. push_backs m vector_default
      [Outside a, Outside b, Outside c, Outside d, Outside e] = (Inr v5, m5)"
    by (rule five_push_backs_return)
qed

theorem push_back_capacity_growth_witness:
  "pow2_or_zero 4 \<and> least_pow2_ge 8 5 \<and>
   v_capacity \<lparr>v_data = Some 3, v_size = 5, v_capacity = 8\<rparr> = 8 \<and>
   (\<exists>v5 m5. push_backs \<lparr>blocks = [], free_slots = 12\<rparr> vector_default
      [Outside 1, Outside 2, Outside 3, Outside 4, Outside (5 :: int)] = (Inr v5, m5))"
proof -
  define M :: "int memory" where "M = \<lparr>blocks = [], free_slots = 12\<rparr>"
  define M3 :: "int memory" where
    "M3 = \<lparr>blocks = [None, None, Some [Some 1, Some 2, Some 3, None]], free_slots = 8\<rparr>"
  define M4 :: "int memory" where
    "M4 = \<lparr>blocks = [None, None, None,
       Some [Some 1, Some 2, Some 3, Some 4, None, None, None, None]], free_slots = 4\<rparr>"
  define M5 :: "int memory" where
    "M5 = \<lparr>blocks = [None, None, None,
       Some [Some 1, Some 2, Some 3, Some 4, Some 5, None, None, None]], free_slots = 4\<rparr>"
  have r3: "push_backs M vector_default [Outside 1, Outside 2, Outside 3] =
      (Inr \<lparr>v_data = Some 2, v_size = 3, v_capacity = 4\<rparr>, M3)"
    by (simp add: M_def M3_def run_simps alloc_size_small)
  have r4: "push_back M3 \<lparr>v_data = Some 2, v_size = 3, v_capacity = 4\<rparr> (Outside 4) =
      (Inr \<lparr>v_data = Some 3, v_size = 4, v_capacity = 8\<rparr>, M4)"
    by (simp add: M3_def M4_def run_simps alloc_size_small)
  have r5: "push_backs M vector_default
      [Outside 1, Outside 2, Outside 3, Outside 4, Outside 5] =
      (Inr \<lparr>v_data = Some 3, v_size = 5, v_capacity = 8\<rparr>, M5)"
    by (simp add: M_def M5_def run_simps alloc_size_small)
  have "12 \<le> free_slots M"
    by (simp add: M_def)
  with r3 r4 r5
    push_back_capacity_growth [of M "[Outside 1, Outside 2, Outside 3]"
      "\<lparr>v_data = Some 2, v_size = 3, v_capacity = 4\<rparr>" M3 "Outside 4"
      "\<lparr>v_data = Some 3, v_size = 4, v_capacity = 8\<rparr>" M4
      "Outside 1" "Outside 2" "Outside 3" "Outside 4" "Outside 5"
      "\<lparr>v_data = Some 3, v_size = 5, v_capacity = 8\<rparr>" M5 1 2 3 4 5]
  show ?thesis
    by (simp add: M_def)
qed

text \<open>
  C1 as stated fails at the fourth call: the capacity grows from 4 to 8 while the size
  goes from 3 to 4, and the smallest power of two that is at least 4 (or 3) is 4.
\<close>

theorem push_back_growth_not_least_for_size:
  "fst (push_backs \<lparr>blocks = [], free_slots = 12\<rparr> vector_default
      [Outside 1, Outside 2, Outside (3 :: int)]) =
     Inr \<lparr>v_data = Some 2, v_size = 3, v_capacity = 4\<rparr> \<and>
   fst (push_backs \<lparr>blocks = [], free_slots = 12\<rparr> vector_default
      [Outside 1, Outside 2, Outside 3, Outside (4 :: int)]) =
     Inr \<lparr>v_data = Some 3, v_size = 4, v_capacity = 8\<rparr> \<and>
   \<not> least_pow2_ge 8 4 \<and> \<not> least_pow2_ge 8 3"
proof -
  have "\<not> least_pow2_ge 8 4" "\<not> least_pow2_ge 8 3"
    using is_pow2_4 by (auto simp: least_pow2_ge_def)
  then show ?thesis
    by (simp add: run_simps alloc_size_small)
qed

section \<open>Checked access\<close>

lemma deref_not_out_of_range: "deref m p i \<noteq> Inl array_out_of_range"
  by (simp add: deref_def split: option.splits)

lemma deref_well_formed:
  assumes "well_formed m v" "i < v_size v"
  shows "deref m (v_data v) (unat i) = Inr (elems m v ! unat i) \<and>
         storage m v ! unat i = Some (elems m v ! unat i)"
proof -
  have lt: "unat i < unat (v_size v)"
    using assms(2) by (simp add: word_less_nat_alt)
  then have "v_size v \<noteq> 0"
    by auto
  with assms(1) obtain a where a: "v_data v = Some a"
    using well_formed_null [of m v] by (cases "v_data v") auto
  with assms(1) obtain b where b: "lookup m a = Some b" "storage m v = b"
    "length b = unat (v_capacity v)" "unat (v_size v) \<le> unat (v_capacity v)"
    "\<forall>k<unat (v_size v). b ! k \<noteq> None"
    using well_formed_live by blast
  from b(5) lt obtain x where x: "b ! unat i = Some x"
    by auto
  have "elems m v ! unat i = x"
    using lt b(3,4) x by (simp add: elems_def b(2))
  moreover have "deref m (Some a) (unat i) = Inr x"
    using b(1,3,4) lt x by (intro deref_ok) simp_all
  ultimately show ?thesis
    using a b(2) x by simp
qed

text \<open>
  C4. \<^verbatim>\<open>at(i)\<close> ends in \<open>array_out_of_range\<close> exactly when \<open>i \<ge> size\<close>; on a well-formed
  vector and \<open>i < size\<close> it returns the element in slot \<open>i\<close>.
\<close>

theorem at_out_of_range_iff:
  "(at m v i = Inl array_out_of_range \<longleftrightarrow> v_size v \<le> i) \<and>
   (well_formed m v \<and> i < v_size v \<longrightarrow>
      at m v i = Inr (elems m v ! unat i) \<and> storage m v ! unat i = Some (elems m v ! unat i))"
proof (intro conjI impI)
  show "at m v i = Inl array_out_of_range \<longleftrightarrow> v_size v \<le> i"
    by (simp add: at_def deref_not_out_of_range)
next
  assume h: "well_formed m v \<and> i < v_size v"
  then have "\<not> v_size v \<le> i"
    by (simp add: not_le)
  with deref_well_formed [of m v i] h
  show "at m v i = Inr (elems m v ! unat i)" "storage m v ! unat i = Some (elems m v ! unat i)"
    by (simp_all add: at_def)
qed

theorem at_out_of_range_iff_witness:
  "at \<lparr>blocks = [Some [Some 10, Some 20, None]], free_slots = 0\<rparr>
      \<lparr>v_data = Some 0, v_size = 2, v_capacity = 3\<rparr> 1 = Inr (20 :: int) \<and>
   at \<lparr>blocks = [Some [Some 10, Some 20, None]], free_slots = 0\<rparr>
      \<lparr>v_data = Some 0, v_size = 2, v_capacity = 3\<rparr> 2 = (Inl array_out_of_range :: error + int)"
proof -
  define M :: "int memory" where "M = \<lparr>blocks = [Some [Some 10, Some 20, None]], free_slots = 0\<rparr>"
  define V where "V = \<lparr>v_data = Some 0, v_size = 2, v_capacity = 3\<rparr>"
  have wf: "well_formed M V \<and> 1 < v_size V"
    by (simp add: well_formed_def M_def V_def lookup_def word_le_nat_alt word_less_nat_alt)
  have e: "elems M V = [10, 20]"
    by (simp add: elems_def storage_def lookup_def M_def V_def)
  from at_out_of_range_iff [of M V 1] wf have "at M V 1 = Inr 20"
    by (simp add: e)
  moreover from at_out_of_range_iff [of M V 2] have "at M V 2 = Inl array_out_of_range"
    by (simp add: V_def)
  ultimately show ?thesis
    by (simp add: M_def V_def)
qed

section \<open>Arithmetic on empty vectors\<close>

lemma arith_loop_empty: "v_size l = 0 \<Longrightarrow> arith_loop f m l r acc 0 = (Inr acc, m)"
  by (simp add: arith_loop.simps)

text \<open>
  C10. For two vectors of size 0, \<^verbatim>\<open>operator+\<close> and \<^verbatim>\<open>operator-\<close> return the
  default-constructed vector (null storage, capacity 0) and leave the memory as it is;
  that vector compares unequal to every vector, itself included.
\<close>

theorem arith_of_empty_is_default:
  "v_size l = 0 \<and> v_size r = 0 \<longrightarrow>
     vector_plus m l r = (Inr vector_default, m) \<and>
     vector_minus m l r = (Inr vector_default, m) \<and>
     v_data vector_default = None \<and> v_capacity vector_default = 0 \<and>
     vector_eq m' vector_default w = Inr False \<and>
     vector_eq m' w vector_default = Inr False \<and>
     vector_eq m' vector_default vector_default = Inr False"
  by (simp add: vector_plus_def vector_minus_def arith_loop_empty vector_eq_def vector_default_def)

theorem arith_of_empty_is_default_witness:
  "vector_plus \<lparr>blocks = [Some [None, None]], free_slots = 5\<rparr>
      \<lparr>v_data = Some 0, v_size = 0, v_capacity = 2\<rparr> vector_default =
     (Inr vector_default, \<lparr>blocks = [Some [None :: int option, None]], free_slots = 5\<rparr>) \<and>
   vector_minus \<lparr>blocks = [Some [None, None]], free_slots = 5\<rparr>
      \<lparr>v_data = Some 0, v_size = 0, v_capacity = 2\<rparr> vector_default =
     (Inr vector_default, \<lparr>blocks = [Some [None :: int option, None]], free_slots = 5\<rparr>) \<and>
   vector_eq \<lparr>blocks = [Some [None :: int option, None]], free_slots = 5\<rparr>
      vector_default vector_default = Inr False"
  using arith_of_empty_is_default [of "\<lparr>v_data = Some 0, v_size = 0, v_capacity = 2\<rparr>" vector_default
      "\<lparr>blocks = [Some [None :: int option, None]], free_slots = 5\<rparr>"
      "\<lparr>blocks = [Some [None :: int option, None]], free_slots = 5\<rparr>" vector_default]
  by (simp add: vector_default_def)

section \<open>Moving a vector\<close>

lemma deallocate_frame:
  "deallocate m p n = (res, m') \<Longrightarrow>
   length (blocks m') = length (blocks m) \<and> (\<forall>a. Some a \<noteq> p \<longrightarrow> lookup m' a = lookup m a)"
  by (auto simp: deallocate_def lookup_def split: option.splits if_splits)

lemma deallocate_error:
  "deallocate m p n = (Inl e, m') \<Longrightarrow> e = undefined_behaviour \<and> m' = m"
  by (auto simp: deallocate_def split: option.splits if_splits)

lemma vector_dtor_well_formed:
  "well_formed m v \<Longrightarrow> fst (vector_dtor m v) = Inr ()"
  by (auto simp: vector_dtor_def deallocate_def well_formed_def split: option.splits)

text \<open>
  C7. Move construction, and move assignment from another object (the assignment of an
  object to itself is guarded and does nothing), leave the source with null storage,
  size 0 and capacity 0, and give the destination the storage pointer, size and capacity
  the source had. No block is allocated and no slot is written: move construction leaves
  the memory as it is, and in a move assignment the memory changes only by the
  destructor of the temporary, which releases the block the destination owned before;
  every other block, that of the source included, is as it was.
\<close>

theorem move_leaves_source_empty:
  "(new \<noteq> other \<longrightarrow>
      v_data (objs (construct_move s new other) other) = None \<and>
      v_size (objs (construct_move s new other) other) = 0 \<and>
      v_capacity (objs (construct_move s new other) other) = 0 \<and>
      objs (construct_move s new other) new = objs s other \<and>
      heap (construct_move s new other) = heap s) \<and>
   (this \<noteq> other \<longrightarrow>
      v_data (objs (snd (assign_move s this other)) other) = None \<and>
      v_size (objs (snd (assign_move s this other)) other) = 0 \<and>
      v_capacity (objs (snd (assign_move s this other)) other) = 0 \<and>
      objs (snd (assign_move s this other)) this = objs s other \<and>
      (fst (assign_move s this other), heap (snd (assign_move s this other))) =
        vector_dtor (heap s) (objs s this) \<and>
      length (blocks (heap (snd (assign_move s this other)))) = length (blocks (heap s)) \<and>
      (\<forall>a. v_data (objs s this) \<noteq> Some a \<longrightarrow>
         lookup (heap (snd (assign_move s this other))) a = lookup (heap s) a) \<and>
      (well_formed (heap s) (objs s this) \<longrightarrow> fst (assign_move s this other) = Inr ()))"
proof (intro conjI impI)
  assume ne: "this \<noteq> other"
  obtain res m2 where d: "vector_dtor (heap s) (objs s this) = (res, m2)"
    by (cases "vector_dtor (heap s) (objs s this)")
  have sw: "swap (fst (vector_move (objs s other))) (objs s this) = (objs s this, objs s other)"
    by (simp add: swap_def vector_move_def)
  have am: "assign_move s this other =
      (res, s\<lparr>objs := (objs s)(other := snd (vector_move (objs s other)), this := objs s other),
              heap := m2\<rparr>)"
    using ne by (simp add: assign_move_def case_prod_beta sw d)
  show "v_data (objs (snd (assign_move s this other)) other) = None"
    "v_size (objs (snd (assign_move s this other)) other) = 0"
    "v_capacity (objs (snd (assign_move s this other)) other) = 0"
    "objs (snd (assign_move s this other)) this = objs s other"
    using ne by (simp_all add: am vector_move_def)
  show "(fst (assign_move s this other), heap (snd (assign_move s this other))) =
        vector_dtor (heap s) (objs s this)"
    by (simp add: am d)
  from d have dd: "deallocate (heap s) (v_data (objs s this)) (v_capacity (objs s this)) = (res, m2)"
    by (simp add: vector_dtor_def)
  show "length (blocks (heap (snd (assign_move s this other)))) = length (blocks (heap s))"
    using deallocate_frame [OF dd] by (simp add: am)
  show "\<forall>a. v_data (objs s this) \<noteq> Some a \<longrightarrow>
         lookup (heap (snd (assign_move s this other))) a = lookup (heap s) a"
    using deallocate_frame [OF dd] by (auto simp: am)
  assume "well_formed (heap s) (objs s this)"
  then show "fst (assign_move s this other) = Inr ()"
    using vector_dtor_well_formed [of "heap s" "objs s this"] by (simp add: am d)
qed (simp_all add: construct_move_def vector_move_def)

theorem move_leaves_source_empty_witness:
  "objs (construct_move
      \<lparr>objs = no_objects(0 := \<lparr>v_data = Some 0, v_size = 1, v_capacity = 1\<rparr>,
                         1 := \<lparr>v_data = Some 1, v_size = 2, v_capacity = 2\<rparr>),
       heap = \<lparr>blocks = [Some [Some (7 :: int)], Some [Some 8, Some 9]], free_slots = 0\<rparr>\<rparr> 2 1) 1
     = vector_default \<and>
   objs (construct_move
      \<lparr>objs = no_objects(0 := \<lparr>v_data = Some 0, v_size = 1, v_capacity = 1\<rparr>,
                         1 := \<lparr>v_data = Some 1, v_size = 2, v_capacity = 2\<rparr>),
       heap = \<lparr>blocks = [Some [Some (7 :: int)], Some [Some 8, Some 9]], free_slots = 0\<rparr>\<rparr> 2 1) 2
     = \<lparr>v_data = Some 1, v_size = 2, v_capacity = 2\<rparr> \<and>
   objs (snd (assign_move
      \<lparr>objs = no_objects(0 := \<lparr>v_data = Some 0, v_size = 1, v_capacity = 1\<rparr>,
                         1 := \<lparr>v_data = Some 1, v_size = 2, v_capacity = 2\<rparr>),
       heap = \<lparr>blocks = [Some [Some (7 :: int)], Some [Some 8, Some 9]], free_slots = 0\<rparr>\<rparr> 0 1)) 1
     = vector_default \<and>
   objs (snd (assign_move
      \<lparr>objs = no_objects(0 := \<lparr>v_data = Some 0, v_size = 1, v_capacity = 1\<rparr>,
                         1 := \<lparr>v_data = Some 1, v_size = 2, v_capacity = 2\<rparr>),
       heap = \<lparr>blocks = [Some [Some (7 :: int)], Some [Some 8, Some 9]], free_slots = 0\<rparr>\<rparr> 0 1)) 0
     = \<lparr>v_data = Some 1, v_size = 2, v_capacity = 2\<rparr> \<and>
   fst (assign_move
      \<lparr>objs = no_objects(0 := \<lparr>v_data = Some 0, v_size = 1, v_capacity = 1\<rparr>,
                         1 := \<lparr>v_data = Some 1, v_size = 2, v_capacity = 2\<rparr>),
       heap = \<lparr>blocks = [Some [Some (7 :: int)], Some [Some 8, Some 9]], free_slots = 0\<rparr>\<rparr> 0 1)
     = Inr ()"
proof -
  define S :: "int state" where
    "S = \<lparr>objs = no_objects(0 := \<lparr>v_data = Some 0, v_size = 1, v_capacity = 1\<rparr>,
                            1 := \<lparr>v_data = Some 1, v_size = 2, v_capacity = 2\<rparr>),
          heap = \<lparr>blocks = [Some [Some 7], Some [Some 8, Some 9]], free_slots = 0\<rparr>\<rparr>"
  have wf: "well_formed (heap S) (objs S 0)"
    by (simp add: S_def well_formed_def lookup_def)
  have eq: "v = vector_default" if "v_data v = None" "v_size v = 0" "v_capacity v = 0" for v
    using that by (simp add: vector_default_def)
  from move_leaves_source_empty [of 2 1 S 0] wf
  have "objs (construct_move S 2 1) 1 = vector_default"
    "objs (construct_move S 2 1) 2 = \<lparr>v_data = Some 1, v_size = 2, v_capacity = 2\<rparr>"
    "objs (snd (assign_move S 0 1)) 1 = vector_default"
    "objs (snd (assign_move S 0 1)) 0 = \<lparr>v_data = Some 1, v_size = 2, v_capacity = 2\<rparr>"
    "fst (assign_move S 0 1) = Inr ()"
    by (simp_all add: eq) (simp_all add: S_def)
  then show ?thesis
    by (simp add: S_def)
qed

section \<open>Copy and move assignment\<close>

lemma deref_error: "deref m p i = Inl e \<Longrightarrow> e = undefined_behaviour"
  by (auto simp: deref_def split: option.splits if_splits)

lemma construct_error: "construct m p i x = (Inl e, m') \<Longrightarrow> e = undefined_behaviour"
  by (auto simp: construct_def split: option.splits if_splits)

lemma copy_elems_error: "copy_elems m dst src i n = (Inl e, m') \<Longrightarrow> e = undefined_behaviour"
proof (induction m dst src i n rule: copy_elems.induct)
  case (1 m dst src i n)
  show ?case
  proof (cases "i < n")
    case False
    with "1.prems" show ?thesis
      by (simp add: copy_elems.simps [of m])
  next
    case True
    show ?thesis
    proof (cases "deref m src (unat i)")
      case (Inl e')
      with True "1.prems" show ?thesis
        by (auto simp: copy_elems.simps [of m] dest: deref_error)
    next
      case (Inr x)
      obtain r m1 where c: "construct m dst (unat i) x = (r, m1)"
        by (cases "construct m dst (unat i) x")
      show ?thesis
      proof (cases r)
        case (Inl e')
        with True Inr c "1.prems" show ?thesis
          by (auto simp: copy_elems.simps [of m] dest: construct_error)
      next
        case (Inr u)
        with True \<open>deref m src (unat i) = Inr x\<close> c "1.prems"
        have "copy_elems m1 dst src (i + 1) n = (Inl e, m')"
          by (simp add: copy_elems.simps [of m])
        with "1.IH" [OF True \<open>deref m src (unat i) = Inr x\<close> c [symmetric] Inr] show ?thesis
          by simp
      qed
    qed
  qed
qed

lemma vector_copy_bad_alloc:
  "vector_copy m v = (Inl bad_alloc, m1) \<Longrightarrow> m1 = m"
  by (auto simp: vector_copy_def allocate_def dest: copy_elems_error
      split: if_splits prod.splits sum.splits)

lemma vector_copy_ok:
  assumes wf: "well_formed m v" and mem: "unat (v_capacity v) \<le> free_slots m"
  shows "\<exists>m1. vector_copy m v =
            (Inr \<lparr>v_data = Some (length (blocks m)), v_size = v_size v, v_capacity = v_capacity v\<rparr>, m1) \<and>
           lookup m1 = (lookup m)(length (blocks m) \<mapsto>
             take (unat (v_size v)) (storage m v) @
               replicate (unat (v_capacity v) - unat (v_size v)) None) \<and>
           length (blocks m1) = Suc (length (blocks m))"
proof -
  define a where "a = length (blocks m)"
  obtain m1 where m1: "allocate m (v_capacity v) = (Inr a, m1)"
    "lookup m1 = (lookup m)(a \<mapsto> replicate (unat (v_capacity v)) None)"
    "length (blocks m1) = Suc (length (blocks m))"
    using allocate_ok [OF mem] unfolding a_def by blast
  show ?thesis
  proof (cases "v_data v")
    case None
    with wf have z: "v_capacity v = 0" "v_size v = 0" "storage m v = []"
      using well_formed_null by blast+
    have "copy_elems m1 (Some a) None 0 0 = (Inr (), m1)"
      by (simp add: copy_elems.simps)
    then have "vector_copy m v = (Inr \<lparr>v_data = Some a, v_size = v_size v, v_capacity = v_capacity v\<rparr>, m1)"
      using m1(1) None z by (simp add: vector_copy_def)
    then show ?thesis
      using m1 z unfolding a_def by simp
  next
    case (Some p)
    with wf obtain b where b: "lookup m p = Some b" "storage m v = b"
      "length b = unat (v_capacity v)" "unat (v_size v) \<le> unat (v_capacity v)"
      "\<forall>k<unat (v_size v). b ! k \<noteq> None"
      using well_formed_live by blast
    have pa: "p \<noteq> a"
      using lookup_live [OF b(1)] by (simp add: a_def)
    have "\<exists>m2. copy_elems m1 (Some a) (Some p) 0 (v_size v) = (Inr (), m2) \<and>
           length (blocks m2) = length (blocks m1) \<and>
           free_slots m2 = free_slots m1 \<and>
           lookup m2 = (lookup m1)(a \<mapsto>
             map (\<lambda>k. if unat (0 :: size_t) \<le> k \<and> k < unat (v_size v) then b ! k
                      else replicate (unat (v_capacity v)) None ! k)
               [0..<length (replicate (unat (v_capacity v)) (None :: 'a option))])"
      using b pa by (intro copy_elems_ok) (simp_all add: m1(2))
    then obtain m2 where m2: "copy_elems m1 (Some a) (Some p) 0 (v_size v) = (Inr (), m2)"
      "length (blocks m2) = length (blocks m1)"
      "lookup m2 = (lookup m1)(a \<mapsto>
         take (unat (v_size v)) b @ replicate (unat (v_capacity v) - unat (v_size v)) None)"
      using copied_block [of "unat (v_size v)" b "unat (v_capacity v)"] b(3,4) by auto
    have "vector_copy m v = (Inr \<lparr>v_data = Some a, v_size = v_size v, v_capacity = v_capacity v\<rparr>, m2)"
      using m1(1) m2(1) Some by (simp add: vector_copy_def)
    then show ?thesis
      using m1 m2 b(2) unfolding a_def by simp
  qed
qed

lemma swap_exchanges: "swap a b = (b, a)"
  by (cases a; cases b) (simp add: swap_def)

lemma assign_copy_unfold:
  assumes "this \<noteq> other" "vector_copy (heap s) (objs s other) = (Inr c, m1)"
  shows "assign_copy s this other =
     (fst (vector_dtor m1 (objs s this)),
      s\<lparr>objs := (objs s)(this := c), heap := snd (vector_dtor m1 (objs s this))\<rparr>)"
  using assms by (simp add: assign_copy_def swap_exchanges case_prod_beta)

lemma assign_copy_ok:
  assumes ne: "this \<noteq> other"
    and wt: "well_formed (heap s) (objs s this)" and wo: "well_formed (heap s) (objs s other)"
    and mem: "unat (v_capacity (objs s other)) \<le> free_slots (heap s)"
  shows "fst (assign_copy s this other) = Inr () \<and>
         v_size (objs (snd (assign_copy s this other)) this) = v_size (objs s other) \<and>
         v_capacity (objs (snd (assign_copy s this other)) this) = v_capacity (objs s other) \<and>
         v_data (objs (snd (assign_copy s this other)) this) = Some (length (blocks (heap s))) \<and>
         elems (heap (snd (assign_copy s this other))) (objs (snd (assign_copy s this other)) this)
           = elems (heap s) (objs s other) \<and>
         well_formed (heap (snd (assign_copy s this other)))
           (objs (snd (assign_copy s this other)) this) \<and>
         objs (snd (assign_copy s this other)) other = objs s other"
proof -
  define a where "a = length (blocks (heap s))"
  define c where "c = \<lparr>v_data = Some a, v_size = v_size (objs s other),
    v_capacity = v_capacity (objs s other)\<rparr>"
  define blk where "blk = take (unat (v_size (objs s other))) (storage (heap s) (objs s other)) @
    replicate (unat (v_capacity (objs s other)) - unat (v_size (objs s other))) None"
  obtain m1 where m1: "vector_copy (heap s) (objs s other) = (Inr c, m1)"
    "lookup m1 = (lookup (heap s))(a \<mapsto> blk)"
    using vector_copy_ok [OF wo mem] unfolding a_def c_def blk_def by blast
  have so: "length (storage (heap s) (objs s other)) = unat (v_capacity (objs s other))"
    "unat (v_size (objs s other)) \<le> unat (v_capacity (objs s other))"
    "\<forall>k<unat (v_size (objs s other)). storage (heap s) (objs s other) ! k \<noteq> None"
    using wo well_formed_null [of "heap s" "objs s other"] well_formed_live [of "heap s" "objs s other"]
    by (cases "v_data (objs s other)"; fastforce simp: well_formed_def word_le_nat_alt)+
  have "\<exists>m2. vector_dtor m1 (objs s this) = (Inr (), m2) \<and> lookup m2 a = Some blk"
  proof (cases "v_data (objs s this)")
    case None
    then show ?thesis
      by (simp add: vector_dtor_def deallocate_def m1(2))
  next
    case (Some p)
    with wt obtain b where b: "lookup (heap s) p = Some b" "length b = unat (v_capacity (objs s this))"
      using well_formed_live by blast
    have pa: "p \<noteq> a"
      using lookup_live [OF b(1)] by (simp add: a_def)
    then have "lookup m1 p = Some b"
      using b(1) by (simp add: m1(2))
    from deallocate_ok [OF this b(2)] pa Some show ?thesis
      by (auto simp: vector_dtor_def m1(2))
  qed
  then obtain m2 where m2: "vector_dtor m1 (objs s this) = (Inr (), m2)" "lookup m2 a = Some blk"
    by blast
  have ac: "assign_copy s this other = (Inr (), s\<lparr>objs := (objs s)(this := c), heap := m2\<rparr>)"
    using assign_copy_unfold [OF ne m1(1)] m2(1) by simp
  have st: "storage m2 c = blk"
    by (simp add: storage_def c_def m2(2))
  have "elems m2 c = elems (heap s) (objs s other)"
    using so(1,2) by (simp add: elems_def st) (simp add: blk_def c_def)
  moreover have "well_formed m2 c"
  proof (rule well_formed_liveI [of _ a _ blk])
    fix k
    assume "k < unat (v_size c)"
    then show "blk ! k \<noteq> None"
      using so by (simp add: blk_def c_def nth_append)
  qed (use so in \<open>simp_all add: c_def m2(2) blk_def\<close>)
  ultimately show ?thesis
    using ne by (simp add: ac) (simp add: c_def a_def)
qed

lemma assign_move_unfold:
  assumes "this \<noteq> other"
  shows "assign_move s this other =
     (fst (vector_dtor (heap s) (objs s this)),
      s\<lparr>objs := (objs s)(other := vector_default, this := objs s other),
        heap := snd (vector_dtor (heap s) (objs s this))\<rparr>)"
proof -
  have "fst (vector_move (objs s other)) = objs s other"
    by (rule vector_eqI) (simp_all add: vector_move_def)
  moreover have "snd (vector_move (objs s other)) = vector_default"
    by (rule vector_eqI) (simp_all add: vector_move_def vector_default_def)
  ultimately show ?thesis
    using assms by (simp add: assign_move_def swap_exchanges case_prod_beta)
qed

lemma assign_move_ok:
  assumes ne: "this \<noteq> other"
    and wt: "well_formed (heap s) (objs s this)" and wo: "well_formed (heap s) (objs s other)"
    and sep: "v_data (objs s other) = None \<or> v_data (objs s this) \<noteq> v_data (objs s other)"
  shows "fst (assign_move s this other) = Inr () \<and>
         objs (snd (assign_move s this other)) this = objs s other \<and>
         objs (snd (assign_move s this other)) other = vector_default \<and>
         elems (heap (snd (assign_move s this other))) (objs (snd (assign_move s this other)) this)
           = elems (heap s) (objs s other) \<and>
         well_formed (heap (snd (assign_move s this other)))
           (objs (snd (assign_move s this other)) this)"
proof -
  obtain res m2 where d: "vector_dtor (heap s) (objs s this) = (res, m2)"
    by (cases "vector_dtor (heap s) (objs s this)")
  have res: "res = Inr ()"
    using vector_dtor_well_formed [OF wt] d by simp
  from d have "deallocate (heap s) (v_data (objs s this)) (v_capacity (objs s this)) = (res, m2)"
    by (simp add: vector_dtor_def)
  from deallocate_frame [OF this]
  have fr: "lookup m2 p = lookup (heap s) p" if "v_data (objs s other) = Some p" for p
    using that sep by auto
  have "well_formed m2 (objs s other) \<and> storage m2 (objs s other) = storage (heap s) (objs s other) \<and>
      elems m2 (objs s other) = elems (heap s) (objs s other)"
    using wo fr by (rule well_formed_frame)
  then show ?thesis
    using ne by (simp add: assign_move_unfold [OF ne] d res)
qed

text \<open>
  C6. Assigning a vector to itself changes nothing. In a copy assignment between two
  objects the temporary is constructed first: when that construction fails, no object has
  been changed, and when it fails with \<open>bad_alloc\<close>, the only exception it can throw, the
  whole state is as before. When the construction succeeds (both vectors well-formed and
  enough memory for \<open>other.capacity\<close> slots), the target ends up with the size, capacity
  and elements of \<open>other\<close> in a block of its own. In a move assignment between two
  objects the temporary takes the storage, size and capacity of \<open>other\<close>, which becomes
  the default vector, and is swapped with the target; its destructor then releases what
  the target held. No step of this constructs anything or throws \<open>bad_alloc\<close>; when both
  vectors are well-formed and do not share a block, the assignment succeeds and the
  target has the elements \<open>other\<close> had.
\<close>

theorem assignment_failure_atomic:
  "assign_copy s x x = (Inr (), s) \<and>
   assign_move s x x = (Inr (), s) \<and>
   (this \<noteq> other \<and> fst (vector_copy (heap s) (objs s other)) = Inl e \<longrightarrow>
      fst (assign_copy s this other) = Inl e \<and>
      objs (snd (assign_copy s this other)) = objs s) \<and>
   (fst (assign_copy s this other) = Inl bad_alloc \<longrightarrow> snd (assign_copy s this other) = s) \<and>
   fst (assign_move s this other) \<noteq> Inl bad_alloc \<and>
   (this \<noteq> other \<and> well_formed (heap s) (objs s this) \<and> well_formed (heap s) (objs s other) \<and>
    unat (v_capacity (objs s other)) \<le> free_slots (heap s) \<longrightarrow>
      fst (assign_copy s this other) = Inr () \<and>
      v_size (objs (snd (assign_copy s this other)) this) = v_size (objs s other) \<and>
      v_capacity (objs (snd (assign_copy s this other)) this) = v_capacity (objs s other) \<and>
      elems (heap (snd (assign_copy s this other))) (objs (snd (assign_copy s this other)) this)
        = elems (heap s) (objs s other) \<and>
      objs (snd (assign_copy s this other)) other = objs s other) \<and>
   (this \<noteq> other \<longrightarrow>
      assign_move s this other =
        (fst (vector_dtor (heap s) (objs s this)),
         s\<lparr>objs := (objs s)(other := vector_default, this := objs s other),
           heap := snd (vector_dtor (heap s) (objs s this))\<rparr>)) \<and>
   (this \<noteq> other \<and> well_formed (heap s) (objs s this) \<and> well_formed (heap s) (objs s other) \<and>
    (v_data (objs s other) = None \<or> v_data (objs s this) \<noteq> v_data (objs s other)) \<longrightarrow>
      fst (assign_move s this other) = Inr () \<and>
      objs (snd (assign_move s this other)) this = objs s other \<and>
      objs (snd (assign_move s this other)) other = vector_default \<and>
      elems (heap (snd (assign_move s this other))) (objs (snd (assign_move s this other)) this)
        = elems (heap s) (objs s other) \<and>
      well_formed (heap (snd (assign_move s this other)))
        (objs (snd (assign_move s this other)) this))"
proof (intro conjI impI)
  show "assign_copy s x x = (Inr (), s)"
    by (simp add: assign_copy_def)
  show "assign_move s x x = (Inr (), s)"
    by (simp add: assign_move_def)
  show "fst (assign_move s this other) \<noteq> Inl bad_alloc"
    by (cases "vector_dtor (heap s) (fst (swap (fst (vector_move (objs s other))) (objs s this)))")
      (auto simp: assign_move_def case_prod_beta vector_dtor_def dest: deallocate_error)
next
  assume h: "this \<noteq> other \<and> fst (vector_copy (heap s) (objs s other)) = Inl e"
  then obtain m1 where "vector_copy (heap s) (objs s other) = (Inl e, m1)"
    by (cases "vector_copy (heap s) (objs s other)") simp
  with h show "fst (assign_copy s this other) = Inl e" "objs (snd (assign_copy s this other)) = objs s"
    by (simp_all add: assign_copy_def)
next
  assume f: "fst (assign_copy s this other) = Inl bad_alloc"
  then have ne: "this \<noteq> other"
    by (auto simp: assign_copy_def)
  obtain r m1 where vc: "vector_copy (heap s) (objs s other) = (r, m1)"
    by (cases "vector_copy (heap s) (objs s other)")
  show "snd (assign_copy s this other) = s"
  proof (cases r)
    case (Inl e')
    with f ne vc have "e' = bad_alloc"
      by (simp add: assign_copy_def)
    with Inl vc have "m1 = heap s"
      using vector_copy_bad_alloc by blast
    with Inl ne vc show ?thesis
      by (simp add: assign_copy_def)
  next
    case (Inr c)
    obtain r2 m2 where d: "vector_dtor m1 (objs s this) = (r2, m2)"
      by (cases "vector_dtor m1 (objs s this)")
    with f assign_copy_unfold [OF ne vc [unfolded Inr]] have "r2 = Inl bad_alloc"
      by simp
    with d show ?thesis
      by (auto simp: vector_dtor_def dest: deallocate_error)
  qed
next
  assume "this \<noteq> other \<and> well_formed (heap s) (objs s this) \<and> well_formed (heap s) (objs s other) \<and>
    unat (v_capacity (objs s other)) \<le> free_slots (heap s)"
  then have *: "this \<noteq> other" "well_formed (heap s) (objs s this)"
    "well_formed (heap s) (objs s other)" "unat (v_capacity (objs s other)) \<le> free_slots (heap s)"
    by simp_all
  from assign_copy_ok [OF *]
  show "fst (assign_copy s this other) = Inr ()"
    "v_size (objs (snd (assign_copy s this other)) this) = v_size (objs s other)"
    "v_capacity (objs (snd (assign_copy s this other)) this) = v_capacity (objs s other)"
    "elems (heap (snd (assign_copy s this other))) (objs (snd (assign_copy s this other)) this)
        = elems (heap s) (objs s other)"
    "objs (snd (assign_copy s this other)) other = objs s other"
    by simp_all
next
  assume "this \<noteq> other"
  then show "assign_move s this other =
        (fst (vector_dtor (heap s) (objs s this)),
         s\<lparr>objs := (objs s)(other := vector_default, this := objs s other),
           heap := snd (vector_dtor (heap s) (objs s this))\<rparr>)"
    by (rule assign_move_unfold)
next
  assume "this \<noteq> other \<and> well_formed (heap s) (objs s this) \<and> well_formed (heap s) (objs s other) \<and>
    (v_data (objs s other) = None \<or> v_data (objs s this) \<noteq> v_data (objs s other))"
  then have *: "this \<noteq> other" "well_formed (heap s) (objs s this)"
    "well_formed (heap s) (objs s other)"
    "v_data (objs s other) = None \<or> v_data (objs s this) \<noteq> v_data (objs s other)"
    by blast+
  from assign_move_ok [OF *]
  show "fst (assign_move s this other) = Inr ()"
    "objs (snd (assign_move s this other)) this = objs s other"
    "objs (snd (assign_move s this other)) other = vector_default"
    "elems (heap (snd (assign_move s this other))) (objs (snd (assign_move s this other)) this)
        = elems (heap s) (objs s other)"
    "well_formed (heap (snd (assign_move s this other)))
        (objs (snd (assign_move s this other)) this)"
    by blast+
qed

theorem assignment_failure_atomic_witness:
  "assign_copy
     \<lparr>objs = no_objects(0 := \<lparr>v_data = Some 0, v_size = 1, v_capacity = 1\<rparr>,
                        1 := \<lparr>v_data = Some 1, v_size = 2, v_capacity = 2\<rparr>),
      heap = \<lparr>blocks = [Some [Some (7 :: int)], Some [Some 8, Some 9]], free_slots = 2\<rparr>\<rparr> 0 0 =
     (Inr (),
      \<lparr>objs = no_objects(0 := \<lparr>v_data = Some 0, v_size = 1, v_capacity = 1\<rparr>,
                         1 := \<lparr>v_data = Some 1, v_size = 2, v_capacity = 2\<rparr>),
       heap = \<lparr>blocks = [Some [Some (7 :: int)], Some [Some 8, Some 9]], free_slots = 2\<rparr>\<rparr>) \<and>
   fst (assign_copy
     \<lparr>objs = no_objects(0 := \<lparr>v_data = Some 0, v_size = 1, v_capacity = 1\<rparr>,
                        1 := \<lparr>v_data = Some 1, v_size = 2, v_capacity = 2\<rparr>),
      heap = \<lparr>blocks = [Some [Some (7 :: int)], Some [Some 8, Some 9]], free_slots = 2\<rparr>\<rparr> 0 1) =
     Inr () \<and>
   elems
     (heap (snd (assign_copy
       \<lparr>objs = no_objects(0 := \<lparr>v_data = Some 0, v_size = 1, v_capacity = 1\<rparr>,
                          1 := \<lparr>v_data = Some 1, v_size = 2, v_capacity = 2\<rparr>),
        heap = \<lparr>blocks = [Some [Some (7 :: int)], Some [Some 8, Some 9]], free_slots = 2\<rparr>\<rparr> 0 1)))
     (objs (snd (assign_copy
       \<lparr>objs = no_objects(0 := \<lparr>v_data = Some 0, v_size = 1, v_capacity = 1\<rparr>,
                          1 := \<lparr>v_data = Some 1, v_size = 2, v_capacity = 2\<rparr>),
        heap = \<lparr>blocks = [Some [Some (7 :: int)], Some [Some 8, Some 9]], free_slots = 2\<rparr>\<rparr> 0 1)) 0) =
     [8, 9] \<and>
   assign_copy
     \<lparr>objs = no_objects(0 := \<lparr>v_data = Some 0, v_size = 1, v_capacity = 1\<rparr>,
                        1 := \<lparr>v_data = Some 1, v_size = 2, v_capacity = 2\<rparr>),
      heap = \<lparr>blocks = [Some [Some (7 :: int)], Some [Some 8, Some 9]], free_slots = 1\<rparr>\<rparr> 0 1 =
     (Inl bad_alloc,
      \<lparr>objs = no_objects(0 := \<lparr>v_data = Some 0, v_size = 1, v_capacity = 1\<rparr>,
                         1 := \<lparr>v_data = Some 1, v_size = 2, v_capacity = 2\<rparr>),
       heap = \<lparr>blocks = [Some [Some (7 :: int)], Some [Some 8, Some 9]], free_slots = 1\<rparr>\<rparr>) \<and>
   assign_move
     \<lparr>objs = no_objects(0 := \<lparr>v_data = Some 0, v_size = 1, v_capacity = 1\<rparr>,
                        1 := \<lparr>v_data = Some 1, v_size = 2, v_capacity = 2\<rparr>),
      heap = \<lparr>blocks = [Some [Some (7 :: int)], Some [Some 8, Some 9]], free_slots = 2\<rparr>\<rparr> 0 1 =
     (Inr (),
      \<lparr>objs = no_objects(0 := \<lparr>v_data = Some 1, v_size = 2, v_capacity = 2\<rparr>,
                         1 := vector_default),
       heap = \<lparr>blocks = [None, Some [Some 8, Some 9]], free_slots = 3\<rparr>\<rparr>) \<and>
   elems \<lparr>blocks = [None, Some [Some 8, Some (9 :: int)]], free_slots = 3\<rparr>
     \<lparr>v_data = Some 1, v_size = 2, v_capacity = 2\<rparr> = [8, 9]"
proof -
  define OB where "OB = no_objects(0 := \<lparr>v_data = Some 0, v_size = 1, v_capacity = 1\<rparr>,
                        1 := \<lparr>v_data = Some 1, v_size = 2, v_capacity = 2\<rparr>)"
  define S :: "int state" where
    "S = \<lparr>objs = OB, heap = \<lparr>blocks = [Some [Some 7], Some [Some 8, Some 9]], free_slots = 2\<rparr>\<rparr>"
  define T :: "int state" where
    "T = \<lparr>objs = OB, heap = \<lparr>blocks = [Some [Some 7], Some [Some 8, Some 9]], free_slots = 1\<rparr>\<rparr>"
  have pre: "(0 :: vid) \<noteq> 1 \<and> well_formed (heap S) (objs S 0) \<and> well_formed (heap S) (objs S 1) \<and>
      unat (v_capacity (objs S 1)) \<le> free_slots (heap S)"
    by (simp add: S_def OB_def well_formed_def lookup_def)
  have el: "elems (heap S) (objs S 1) = [8, 9]"
    by (simp add: S_def OB_def elems_def storage_def lookup_def)
  have fail: "(0 :: vid) \<noteq> 1 \<and> fst (vector_copy (heap T) (objs T 1)) = Inl bad_alloc"
    by (simp add: T_def OB_def vector_copy_def allocate_def)
  from assignment_failure_atomic [of S 0 0 1] pre el
  have a: "assign_copy S 0 0 = (Inr (), S)" "fst (assign_copy S 0 1) = Inr ()"
    "elems (heap (snd (assign_copy S 0 1))) (objs (snd (assign_copy S 0 1)) 0) = [8, 9]"
    by simp_all
  from assignment_failure_atomic [of T 0 0 1 bad_alloc] fail
  have "fst (assign_copy T 0 1) = Inl bad_alloc" "snd (assign_copy T 0 1) = T"
    by simp_all
  then have b: "assign_copy T 0 1 = (Inl bad_alloc, T)"
    by (simp add: prod_eq_iff)
  have sep: "v_data (objs S 1) = None \<or> v_data (objs S 0) \<noteq> v_data (objs S 1)"
    by (simp add: S_def OB_def)
  have dt: "vector_dtor (heap S) (objs S 0) =
      (Inr (), \<lparr>blocks = [None, Some [Some 8, Some 9]], free_slots = 3\<rparr>)"
    by (simp add: S_def OB_def vector_dtor_def deallocate_def lookup_def)
  have ob: "(objs S)(1 := vector_default, 0 := objs S 1) =
      no_objects(0 := \<lparr>v_data = Some 1, v_size = 2, v_capacity = 2\<rparr>, 1 := vector_default)"
    by (auto simp: S_def OB_def fun_eq_iff)
  have mv: "assign_move S 0 1 =
      (fst (vector_dtor (heap S) (objs S 0)),
       S\<lparr>objs := (objs S)(1 := vector_default, 0 := objs S 1),
         heap := snd (vector_dtor (heap S) (objs S 0))\<rparr>)"
    and me: "elems (heap (snd (assign_move S 0 1))) (objs (snd (assign_move S 0 1)) 0) =
       elems (heap S) (objs S 1)"
    using assignment_failure_atomic [of S 0 0 1 bad_alloc] pre sep by blast+
  have c1: "assign_move S 0 1 =
      (Inr (), \<lparr>objs = no_objects(0 := \<lparr>v_data = Some 1, v_size = 2, v_capacity = 2\<rparr>,
                                   1 := vector_default),
               heap = \<lparr>blocks = [None, Some [Some 8, Some 9]], free_slots = 3\<rparr>\<rparr>)"
    using mv [unfolded dt ob] by (simp add: S_def)
  have c2: "elems \<lparr>blocks = [None, Some [Some 8, Some (9 :: int)]], free_slots = 3\<rparr>
       \<lparr>v_data = Some 1, v_size = 2, v_capacity = 2\<rparr> = [8, 9]"
    using me el unfolding c1 by simp
  from a b c1 c2 show ?thesis
    by (simp add: S_def T_def OB_def)
qed

section \<open>Appending an element\<close>

text \<open>The reference \<^verbatim>\<open>v[i]\<close> is slot \<open>i\<close> of the storage of \<open>v\<close>.\<close>

lemma read_own_slot: "read m (Slot (v_data v) (unat i)) = index m v i"
  by (simp add: read_def index_def)



lemma emplace_back_push_back:
  "emplace_back m v r =
     (case push_back m v r of
        (Inl e, m1) \<Rightarrow> (Inl e, m1)
      | (Inr v1, m1) \<Rightarrow>
          (case deref m1 (v_data v1) (unat (v_size v1 - 1)) of
             Inl e \<Rightarrow> (Inl e, m1)
           | Inr y \<Rightarrow> (Inr (v1, y), m1)))"
  by (simp add: emplace_back_def push_back_def Let_def split: prod.splits sum.splits)

lemma push_back_fails:
  assumes "unat (v_capacity v) < 2 ^ 63" "\<not> v_size v + 1 < v_capacity v"
    and "\<not> unat (alloc_size (v_capacity v + 1)) \<le> free_slots m"
  shows "push_back m v r = (Inl bad_alloc, m)"
proof -
  have "\<not> alloc_size (v_capacity v + 1) \<le> v_capacity v"
    using alloc_size_succ(1) [OF assms(1)] by (simp add: not_le)
  then show ?thesis
    using assms(2,3) by (simp add: push_back_def reserve_def allocate_fails)
qed

lemma length_elems: "well_formed m v \<Longrightarrow> length (elems m v) = unat (v_size v)"
  using well_formed_null [of m v] well_formed_live [of m v]
  by (cases "v_data v") (fastforce simp: elems_def)+

lemma at_well_formed:
  "well_formed m v \<Longrightarrow> i < v_size v \<Longrightarrow> at m v i = Inr (elems m v ! unat i)"
  using deref_well_formed [of m v i] by (simp add: at_def not_le)

text \<open>
  When a new block is needed and the argument designates a slot of the vector's own
  storage, \<^verbatim>\<open>reserve\<close> has released that storage by the time the argument is read: the
  new block is there, holding the old elements, and the read is a use after free.
\<close>

lemma push_back_own_slot:
  assumes wf: "well_formed m v" and small: "unat (v_capacity v) < 2 ^ 63"
    and full: "\<not> v_size v + 1 < v_capacity v"
    and mem: "unat (alloc_size (v_capacity v + 1)) \<le> free_slots m"
    and own: "refers_into r v"
  shows "\<exists>m'. push_back m v r = (Inl undefined_behaviour, m') \<and>
           length (blocks m') = Suc (length (blocks m)) \<and>
           lookup m' (length (blocks m)) =
             Some (take (unat (v_size v)) (storage m v) @
                   replicate (unat (alloc_size (v_capacity v + 1)) - unat (v_size v)) None) \<and>
           (\<forall>q. v_data v = Some q \<longrightarrow> lookup m' q = None)"
proof -
  define n where "n = alloc_size (v_capacity v + 1)"
  define a where "a = length (blocks m)"
  have n: "v_capacity v < n"
    using alloc_size_succ(1) [OF small] by (simp add: n_def)
  have memn: "unat n \<le> free_slots m"
    using mem by (simp add: n_def)
  from reserve_grow [OF wf n memn]
  obtain m1 where m1: "reserve m v n = (Inr (v\<lparr>v_capacity := n, v_data := Some a\<rparr>), m1)"
    "lookup m1 =
       (case v_data v of None \<Rightarrow> lookup m | Some a \<Rightarrow> (lookup m)(a := None))
         (a \<mapsto> take (unat (v_size v)) (storage m v) @ replicate (unat n - unat (v_size v)) None)"
    "length (blocks m1) = Suc (length (blocks m))"
    unfolding a_def by blast
  have gone: "lookup m1 q = None" if q: "v_data v = Some q" for q
  proof -
    from wf q obtain b where "lookup m q = Some b"
      using well_formed_live by blast
    then have "q \<noteq> a"
      using lookup_live [of m q b] by (simp add: a_def)
    then show ?thesis
      using q by (simp add: m1(2))
  qed
  from own obtain i where r: "r = Slot (v_data v) i"
    by (cases r) (simp_all add: refers_into_def)
  have "read m1 r = Inl undefined_behaviour"
  proof (cases "v_data v")
    case None
    then show ?thesis
      by (simp add: r read_def deref_def)
  next
    case (Some q)
    with gone [OF Some] show ?thesis
      by (simp add: r read_def deref_def)
  qed
  then have "push_back m v r = (Inl undefined_behaviour, m1)"
    using full m1(1) by (simp add: push_back_def construct_from_def Let_def n_def)
  then show ?thesis
    using m1(2,3) gone by (simp add: n_def a_def)
qed

text \<open>
  C9. \<^verbatim>\<open>push_back\<close> takes its argument by reference and reads it after \<^verbatim>\<open>reserve\<close>
  has released the old block. For \<^verbatim>\<open>fdt::vector<int> x{1, 2}\<close>, of size and capacity 2,
  and the reference \<^verbatim>\<open>x[0]\<close> to its first element, which reads as 1 before the call,
  \<^verbatim>\<open>x.push_back(x[0])\<close> allocates the block of 4 slots, copies 1 and 2, releases the
  old block and then reads the reference in the released block: no element equal to 1
  is appended at index 2. The same call with a reference to an object outside the
  vector appends it.
\<close>

theorem push_back_own_element_use_after_free:
  "vector_init \<lparr>blocks = [], free_slots = 6\<rparr> [1, 2 :: int] =
     (Inr \<lparr>v_data = Some 0, v_size = 2, v_capacity = 2\<rparr>,
      \<lparr>blocks = [Some [Some 1, Some 2]], free_slots = 4\<rparr>) \<and>
   index \<lparr>blocks = [Some [Some 1, Some (2 :: int)]], free_slots = 4\<rparr>
     \<lparr>v_data = Some 0, v_size = 2, v_capacity = 2\<rparr> 0 = Inr 1 \<and>
   well_formed \<lparr>blocks = [Some [Some 1, Some (2 :: int)]], free_slots = 4\<rparr>
     \<lparr>v_data = Some 0, v_size = 2, v_capacity = 2\<rparr> \<and>
   elems \<lparr>blocks = [Some [Some 1, Some (2 :: int)]], free_slots = 4\<rparr>
     \<lparr>v_data = Some 0, v_size = 2, v_capacity = 2\<rparr> = [1, 2] \<and>
   read \<lparr>blocks = [Some [Some 1, Some (2 :: int)]], free_slots = 4\<rparr> (Slot (Some 0) 0) = Inr 1 \<and>
   push_back \<lparr>blocks = [Some [Some 1, Some (2 :: int)]], free_slots = 4\<rparr>
     \<lparr>v_data = Some 0, v_size = 2, v_capacity = 2\<rparr> (Slot (Some 0) 0) =
     (Inl undefined_behaviour,
      \<lparr>blocks = [None, Some [Some 1, Some 2, None, None]], free_slots = 2\<rparr>) \<and>
   read \<lparr>blocks = [None, Some [Some 1, Some (2 :: int), None, None]], free_slots = 2\<rparr>
     (Slot (Some 0) 0) = Inl undefined_behaviour \<and>
   push_back \<lparr>blocks = [Some [Some 1, Some (2 :: int)]], free_slots = 4\<rparr>
     \<lparr>v_data = Some 0, v_size = 2, v_capacity = 2\<rparr> (Outside 1) =
     (Inr \<lparr>v_data = Some 1, v_size = 3, v_capacity = 4\<rparr>,
      \<lparr>blocks = [None, Some [Some 1, Some 2, Some 1, None]], free_slots = 2\<rparr>)"
  by (simp add: run_simps alloc_size_small well_formed_def elems_def storage_def
      vector_init_def init_elems.simps index_def)

text \<open>
  What holds of \<^verbatim>\<open>push_back\<close> on a well-formed vector (whose capacity is below \<open>2^63\<close>,
  as that of every block an allocator hands out) when the argument reads as \<open>x\<close> and,
  in case a new block is needed, does not designate a slot of the vector's own storage:
  the call returns when it needs no new block or the allocator has
  \<open>alloc_size (capacity + 1)\<close> slots left; the size is then one more, the elements are the
  old ones followed by \<open>x\<close>, also when a new block was allocated, and the vector is
  well-formed again. Without the memory for the new block it throws \<open>bad_alloc\<close> and
  nothing has changed.
\<close>

lemma push_back_appends_unless_own_slot:
  "well_formed m v \<and> unat (v_capacity v) < 2 ^ 63 \<and> read m r = Inr x \<and>
   (v_size v + 1 < v_capacity v \<or> \<not> refers_into r v) \<longrightarrow>
     (v_size v + 1 < v_capacity v \<or> unat (alloc_size (v_capacity v + 1)) \<le> free_slots m \<longrightarrow>
        (\<exists>v' m'. push_back m v r = (Inr v', m') \<and>
           v_size v' = v_size v + 1 \<and>
           elems m' v' = elems m v @ [x] \<and>
           at m' v' (v_size v) = Inr x \<and>
           (\<forall>i. i < v_size v \<longrightarrow> at m' v' i = at m v i) \<and>
           well_formed m' v')) \<and>
     (\<not> (v_size v + 1 < v_capacity v \<or> unat (alloc_size (v_capacity v + 1)) \<le> free_slots m) \<longrightarrow>
        push_back m v r = (Inl bad_alloc, m))"
proof (intro impI conjI)
  assume h: "well_formed m v \<and> unat (v_capacity v) < 2 ^ 63 \<and> read m r = Inr x \<and>
   (v_size v + 1 < v_capacity v \<or> \<not> refers_into r v)"
  then have wf: "well_formed m v" and small: "unat (v_capacity v) < 2 ^ 63"
    and rd: "read m r = Inr x" and own: "v_size v + 1 < v_capacity v \<or> \<not> refers_into r v"
    by blast+
  have sc: "unat (v_size v) \<le> unat (v_capacity v)"
    using wf by (simp add: well_formed_def word_le_nat_alt)
  with small have s1: "unat (v_size v + 1) = unat (v_size v) + 1"
    by (simp add: unat_word_ariths)
  {
    assume mem: "v_size v + 1 < v_capacity v \<or> unat (alloc_size (v_capacity v + 1)) \<le> free_slots m"
    from push_back_ok [OF wf small mem rd own]
    obtain v' m' where r: "push_back m v r = (Inr v', m')" "well_formed m' v'"
      "v_size v' = v_size v + 1" "elems m' v' = elems m v @ [x]"
      by blast
    have lt: "i < v_size v'" if "unat i \<le> unat (v_size v)" for i
      using that s1 by (simp add: r(3) word_less_nat_alt)
    have "at m' v' (v_size v) = Inr x"
      using at_well_formed [OF r(2) lt [of "v_size v"]] length_elems [OF wf]
      by (simp add: r(4) nth_append)
    moreover have "at m' v' i = at m v i" if "i < v_size v" for i
    proof -
      from that have u: "unat i < unat (v_size v)"
        by (simp add: word_less_nat_alt)
      then have "at m' v' i = Inr (elems m' v' ! unat i)"
        by (intro at_well_formed [OF r(2)] lt) simp
      also have "\<dots> = Inr (elems m v ! unat i)"
        using u length_elems [OF wf] by (simp add: r(4) nth_append)
      also have "\<dots> = at m v i"
        using at_well_formed [OF wf that] by simp
      finally show ?thesis .
    qed
    ultimately show "\<exists>v' m'. push_back m v r = (Inr v', m') \<and>
           v_size v' = v_size v + 1 \<and>
           elems m' v' = elems m v @ [x] \<and>
           at m' v' (v_size v) = Inr x \<and>
           (\<forall>i. i < v_size v \<longrightarrow> at m' v' i = at m v i) \<and>
           well_formed m' v'"
      using r by blast
  }
  {
    assume "\<not> (v_size v + 1 < v_capacity v \<or> unat (alloc_size (v_capacity v + 1)) \<le> free_slots m)"
    then show "push_back m v r = (Inl bad_alloc, m)"
      by (intro push_back_fails [OF small]) simp_all
  }
qed

text \<open>
  C3. For a well-formed vector (capacity below \<open>2^63\<close>), the test \<^verbatim>\<open>size_ + 1 < capacity_\<close>
  of \<^verbatim>\<open>push_back\<close> and \<^verbatim>\<open>emplace_back\<close> says that more than one slot is free. When it
  holds, the element is constructed in place from the argument, which reads as \<open>x\<close>: same
  storage, same capacity, no block allocated. When it does not hold, a new block of
  \<open>alloc_size (capacity + 1)\<close> slots, the smallest power of two above the capacity, is
  allocated (or the call throws \<open>bad_alloc\<close> and changes nothing) and the element is
  constructed there from the argument, unless the argument designates a slot of the
  vector's own storage: the new block is allocated all the same, and the argument is
  then read in the released block.
\<close>

theorem insertion_reallocates_iff:
  "well_formed m v \<and> unat (v_capacity v) < 2 ^ 63 \<longrightarrow>
     (v_size v + 1 < v_capacity v \<longleftrightarrow> 1 < unat (v_capacity v) - unat (v_size v)) \<and>
     (v_size v + 1 < v_capacity v \<and> read m r = Inr x \<longrightarrow>
        (\<exists>m'. push_back m v r = (Inr (v\<lparr>v_size := v_size v + 1\<rparr>), m') \<and>
              emplace_back m v r = (Inr (v\<lparr>v_size := v_size v + 1\<rparr>, x), m') \<and>
              length (blocks m') = length (blocks m) \<and>
              free_slots m' = free_slots m \<and>
              elems m' (v\<lparr>v_size := v_size v + 1\<rparr>) = elems m v @ [x])) \<and>
     (\<not> v_size v + 1 < v_capacity v \<and> unat (alloc_size (v_capacity v + 1)) \<le> free_slots m \<and>
      read m r = Inr x \<and> \<not> refers_into r v \<longrightarrow>
        (\<exists>m'. push_back m v r =
                (Inr \<lparr>v_data = Some (length (blocks m)), v_size = v_size v + 1,
                       v_capacity = alloc_size (v_capacity v + 1)\<rparr>, m') \<and>
              emplace_back m v r =
                (Inr (\<lparr>v_data = Some (length (blocks m)), v_size = v_size v + 1,
                        v_capacity = alloc_size (v_capacity v + 1)\<rparr>, x), m') \<and>
              length (blocks m') = Suc (length (blocks m)) \<and>
              v_capacity v < alloc_size (v_capacity v + 1) \<and>
              least_pow2_ge (unat (alloc_size (v_capacity v + 1))) (unat (v_capacity v) + 1) \<and>
              elems m' \<lparr>v_data = Some (length (blocks m)), v_size = v_size v + 1,
                         v_capacity = alloc_size (v_capacity v + 1)\<rparr> = elems m v @ [x])) \<and>
     (\<not> v_size v + 1 < v_capacity v \<and> unat (alloc_size (v_capacity v + 1)) \<le> free_slots m \<and>
      refers_into r v \<longrightarrow>
        (\<exists>m'. push_back m v r = (Inl undefined_behaviour, m') \<and>
              emplace_back m v r = (Inl undefined_behaviour, m') \<and>
              length (blocks m') = Suc (length (blocks m)) \<and>
              v_capacity v < alloc_size (v_capacity v + 1) \<and>
              least_pow2_ge (unat (alloc_size (v_capacity v + 1))) (unat (v_capacity v) + 1) \<and>
              lookup m' (length (blocks m)) =
                Some (take (unat (v_size v)) (storage m v) @
                      replicate (unat (alloc_size (v_capacity v + 1)) - unat (v_size v)) None))) \<and>
     (\<not> v_size v + 1 < v_capacity v \<and> \<not> unat (alloc_size (v_capacity v + 1)) \<le> free_slots m \<longrightarrow>
        push_back m v r = (Inl bad_alloc, m) \<and> emplace_back m v r = (Inl bad_alloc, m))"
proof (intro impI)
  assume h: "well_formed m v \<and> unat (v_capacity v) < 2 ^ 63"
  then have wf: "well_formed m v" and small: "unat (v_capacity v) < 2 ^ 63"
    by simp_all
  have sc: "unat (v_size v) \<le> unat (v_capacity v)"
    using wf by (simp add: well_formed_def word_le_nat_alt)
  with small have s1: "unat (v_size v + 1) = unat (v_size v) + 1"
    by (simp add: unat_word_ariths)
  have margin: "v_size v + 1 < v_capacity v \<longleftrightarrow> 1 < unat (v_capacity v) - unat (v_size v)"
    by (auto simp: word_less_nat_alt s1)
  have direct: "\<exists>m'. push_back m v r = (Inr (v\<lparr>v_size := v_size v + 1\<rparr>), m') \<and>
              emplace_back m v r = (Inr (v\<lparr>v_size := v_size v + 1\<rparr>, x), m') \<and>
              length (blocks m') = length (blocks m) \<and>
              free_slots m' = free_slots m \<and>
              elems m' (v\<lparr>v_size := v_size v + 1\<rparr>) = elems m v @ [x]"
    if d: "v_size v + 1 < v_capacity v" and rd: "read m r = Inr x"
  proof -
    from push_back_ok [OF wf small disjI1 [OF d] rd disjI1 [OF d]] d
    obtain v' m' where r: "push_back m v r = (Inr v', m')" "v_size v' = v_size v + 1"
      "elems m' v' = elems m v @ [x]" "deref m' (v_data v') (unat (v_size v' - 1)) = Inr x"
      "v_capacity v' = v_capacity v" "v_data v' = v_data v"
      "length (blocks m') = length (blocks m)"
      "free_slots m' + unat (v_capacity v') = free_slots m + unat (v_capacity v)"
      by auto
    have "v' = v\<lparr>v_size := v_size v + 1\<rparr>"
      by (rule vector_eqI) (simp_all add: r)
    with r show ?thesis
      by (auto simp: emplace_back_push_back)
  qed
  have grow: "\<exists>m'. push_back m v r =
                (Inr \<lparr>v_data = Some (length (blocks m)), v_size = v_size v + 1,
                       v_capacity = alloc_size (v_capacity v + 1)\<rparr>, m') \<and>
              emplace_back m v r =
                (Inr (\<lparr>v_data = Some (length (blocks m)), v_size = v_size v + 1,
                        v_capacity = alloc_size (v_capacity v + 1)\<rparr>, x), m') \<and>
              length (blocks m') = Suc (length (blocks m)) \<and>
              v_capacity v < alloc_size (v_capacity v + 1) \<and>
              least_pow2_ge (unat (alloc_size (v_capacity v + 1))) (unat (v_capacity v) + 1) \<and>
              elems m' \<lparr>v_data = Some (length (blocks m)), v_size = v_size v + 1,
                         v_capacity = alloc_size (v_capacity v + 1)\<rparr> = elems m v @ [x]"
    if g: "\<not> v_size v + 1 < v_capacity v" "unat (alloc_size (v_capacity v + 1)) \<le> free_slots m"
      and rd: "read m r = Inr x" and own: "\<not> refers_into r v"
  proof -
    from push_back_ok [OF wf small disjI2 [OF g(2)] rd disjI2 [OF own]] g(1)
    obtain v' m' where r: "push_back m v r = (Inr v', m')" "v_size v' = v_size v + 1"
      "elems m' v' = elems m v @ [x]" "deref m' (v_data v') (unat (v_size v' - 1)) = Inr x"
      "v_capacity v' = alloc_size (v_capacity v + 1)" "v_data v' = Some (length (blocks m))"
      "length (blocks m') = Suc (length (blocks m))"
      by auto
    have "v' = \<lparr>v_data = Some (length (blocks m)), v_size = v_size v + 1,
                       v_capacity = alloc_size (v_capacity v + 1)\<rparr>"
      by (rule vector_eqI) (simp_all add: r)
    with r alloc_size_succ(1,2) [OF small] show ?thesis
      by (auto simp: emplace_back_push_back)
  qed
  have released: "\<exists>m'. push_back m v r = (Inl undefined_behaviour, m') \<and>
              emplace_back m v r = (Inl undefined_behaviour, m') \<and>
              length (blocks m') = Suc (length (blocks m)) \<and>
              v_capacity v < alloc_size (v_capacity v + 1) \<and>
              least_pow2_ge (unat (alloc_size (v_capacity v + 1))) (unat (v_capacity v) + 1) \<and>
              lookup m' (length (blocks m)) =
                Some (take (unat (v_size v)) (storage m v) @
                      replicate (unat (alloc_size (v_capacity v + 1)) - unat (v_size v)) None)"
    if g: "\<not> v_size v + 1 < v_capacity v" "unat (alloc_size (v_capacity v + 1)) \<le> free_slots m"
      and own: "refers_into r v"
  proof -
    from push_back_own_slot [OF wf small g own]
    obtain m' where r: "push_back m v r = (Inl undefined_behaviour, m')"
      "length (blocks m') = Suc (length (blocks m))"
      "lookup m' (length (blocks m)) =
         Some (take (unat (v_size v)) (storage m v) @
               replicate (unat (alloc_size (v_capacity v + 1)) - unat (v_size v)) None)"
      by blast
    with alloc_size_succ(1,2) [OF small] show ?thesis
      by (auto simp: emplace_back_push_back)
  qed
  have fail: "push_back m v r = (Inl bad_alloc, m) \<and> emplace_back m v r = (Inl bad_alloc, m)"
    if "\<not> v_size v + 1 < v_capacity v" "\<not> unat (alloc_size (v_capacity v + 1)) \<le> free_slots m"
    using push_back_fails [OF small that, of r] by (simp add: emplace_back_push_back)
  from margin direct grow released fail
  show "(v_size v + 1 < v_capacity v \<longleftrightarrow> 1 < unat (v_capacity v) - unat (v_size v)) \<and>
     (v_size v + 1 < v_capacity v \<and> read m r = Inr x \<longrightarrow>
        (\<exists>m'. push_back m v r = (Inr (v\<lparr>v_size := v_size v + 1\<rparr>), m') \<and>
              emplace_back m v r = (Inr (v\<lparr>v_size := v_size v + 1\<rparr>, x), m') \<and>
              length (blocks m') = length (blocks m) \<and>
              free_slots m' = free_slots m \<and>
              elems m' (v\<lparr>v_size := v_size v + 1\<rparr>) = elems m v @ [x])) \<and>
     (\<not> v_size v + 1 < v_capacity v \<and> unat (alloc_size (v_capacity v + 1)) \<le> free_slots m \<and>
      read m r = Inr x \<and> \<not> refers_into r v \<longrightarrow>
        (\<exists>m'. push_back m v r =
                (Inr \<lparr>v_data = Some (length (blocks m)), v_size = v_size v + 1,
                       v_capacity = alloc_size (v_capacity v + 1)\<rparr>, m') \<and>
              emplace_back m v r =
                (Inr (\<lparr>v_data = Some (length (blocks m)), v_size = v_size v + 1,
                        v_capacity = alloc_size (v_capacity v + 1)\<rparr>, x), m') \<and>
              length (blocks m') = Suc (length (blocks m)) \<and>
              v_capacity v < alloc_size (v_capacity v + 1) \<and>
              least_pow2_ge (unat (alloc_size (v_capacity v + 1))) (unat (v_capacity v) + 1) \<and>
              elems m' \<lparr>v_data = Some (length (blocks m)), v_size = v_size v + 1,
                         v_capacity = alloc_size (v_capacity v + 1)\<rparr> = elems m v @ [x])) \<and>
     (\<not> v_size v + 1 < v_capacity v \<and> unat (alloc_size (v_capacity v + 1)) \<le> free_slots m \<and>
      refers_into r v \<longrightarrow>
        (\<exists>m'. push_back m v r = (Inl undefined_behaviour, m') \<and>
              emplace_back m v r = (Inl undefined_behaviour, m') \<and>
              length (blocks m') = Suc (length (blocks m)) \<and>
              v_capacity v < alloc_size (v_capacity v + 1) \<and>
              least_pow2_ge (unat (alloc_size (v_capacity v + 1))) (unat (v_capacity v) + 1) \<and>
              lookup m' (length (blocks m)) =
                Some (take (unat (v_size v)) (storage m v) @
                      replicate (unat (alloc_size (v_capacity v + 1)) - unat (v_size v)) None))) \<and>
     (\<not> v_size v + 1 < v_capacity v \<and> \<not> unat (alloc_size (v_capacity v + 1)) \<le> free_slots m \<longrightarrow>
        push_back m v r = (Inl bad_alloc, m) \<and> emplace_back m v r = (Inl bad_alloc, m))"
    by blast
qed

theorem insertion_reallocates_iff_witness:
  "(\<exists>m'. push_back \<lparr>blocks = [Some [Some 1, None, None]], free_slots = 0\<rparr>
        \<lparr>v_data = Some 0, v_size = 1, v_capacity = 3\<rparr> (Outside (9 :: int)) =
          (Inr \<lparr>v_data = Some 0, v_size = 2, v_capacity = 3\<rparr>, m') \<and>
      emplace_back \<lparr>blocks = [Some [Some 1, None, None]], free_slots = 0\<rparr>
        \<lparr>v_data = Some 0, v_size = 1, v_capacity = 3\<rparr> (Outside (9 :: int)) =
          (Inr (\<lparr>v_data = Some 0, v_size = 2, v_capacity = 3\<rparr>, 9), m') \<and>
      length (blocks m') = 1) \<and>
   (\<exists>m'. push_back \<lparr>blocks = [Some [Some 1, Some 2, None]], free_slots = 4\<rparr>
        \<lparr>v_data = Some 0, v_size = 2, v_capacity = 3\<rparr> (Outside (9 :: int)) =
          (Inr \<lparr>v_data = Some 1, v_size = 3, v_capacity = 4\<rparr>, m') \<and>
      emplace_back \<lparr>blocks = [Some [Some 1, Some 2, None]], free_slots = 4\<rparr>
        \<lparr>v_data = Some 0, v_size = 2, v_capacity = 3\<rparr> (Outside (9 :: int)) =
          (Inr (\<lparr>v_data = Some 1, v_size = 3, v_capacity = 4\<rparr>, 9), m') \<and>
      length (blocks m') = 2 \<and> least_pow2_ge 4 4) \<and>
   (\<exists>m'. emplace_back \<lparr>blocks = [Some [Some 1, Some (2 :: int), None]], free_slots = 4\<rparr>
        \<lparr>v_data = Some 0, v_size = 2, v_capacity = 3\<rparr> (Slot (Some 0) 1) =
          (Inl undefined_behaviour, m') \<and>
      length (blocks m') = 2) \<and>
   emplace_back \<lparr>blocks = [Some [Some 1, Some 2, None]], free_slots = 3\<rparr>
        \<lparr>v_data = Some 0, v_size = 2, v_capacity = 3\<rparr> (Outside (9 :: int)) =
     (Inl bad_alloc, \<lparr>blocks = [Some [Some 1, Some 2, None]], free_slots = 3\<rparr>)"
proof -
  define M :: "int memory" where "M = \<lparr>blocks = [Some [Some 1, None, None]], free_slots = 0\<rparr>"
  define N4 :: "int memory" where "N4 = \<lparr>blocks = [Some [Some 1, Some 2, None]], free_slots = 4\<rparr>"
  define N3 :: "int memory" where "N3 = \<lparr>blocks = [Some [Some 1, Some 2, None]], free_slots = 3\<rparr>"
  define V where "V = \<lparr>v_data = Some 0, v_size = 1, v_capacity = 3\<rparr>"
  define W where "W = \<lparr>v_data = Some 0, v_size = 2, v_capacity = 3\<rparr>"
  have a4: "alloc_size 4 = 4"
    by (simp add: alloc_size_def Let_def)
  have wf: "well_formed M V \<and> unat (v_capacity V) < 2 ^ 63"
    "well_formed N4 W \<and> unat (v_capacity W) < 2 ^ 63"
    "well_formed N3 W \<and> unat (v_capacity W) < 2 ^ 63"
    by (simp_all add: well_formed_def M_def N4_def N3_def V_def W_def lookup_def
        word_le_nat_alt)
  have c: "v_size V + 1 < v_capacity V \<and> read M (Outside 9) = Inr 9"
    "\<not> v_size W + 1 < v_capacity W \<and> unat (alloc_size (v_capacity W + 1)) \<le> free_slots N4 \<and>
     read N4 (Outside 9) = Inr 9 \<and> \<not> refers_into (Outside 9) W"
    "\<not> v_size W + 1 < v_capacity W \<and> unat (alloc_size (v_capacity W + 1)) \<le> free_slots N4 \<and>
     refers_into (Slot (Some 0) 1) W"
    "\<not> v_size W + 1 < v_capacity W \<and> \<not> unat (alloc_size (v_capacity W + 1)) \<le> free_slots N3"
    by (simp_all add: V_def W_def N4_def N3_def a4 word_less_nat_alt read_def refers_into_def)
  from insertion_reallocates_iff [of M V "Outside 9" 9] wf(1) c(1)
  have "\<exists>m'. push_back M V (Outside 9) = (Inr \<lparr>v_data = Some 0, v_size = 2, v_capacity = 3\<rparr>, m') \<and>
      emplace_back M V (Outside 9) = (Inr (\<lparr>v_data = Some 0, v_size = 2, v_capacity = 3\<rparr>, 9), m') \<and>
      length (blocks m') = 1"
    by (auto simp: V_def M_def)
  moreover from insertion_reallocates_iff [of N4 W "Outside 9" 9] wf(2) c(2)
  have "\<exists>m'. push_back N4 W (Outside 9) = (Inr \<lparr>v_data = Some 1, v_size = 3, v_capacity = 4\<rparr>, m') \<and>
      emplace_back N4 W (Outside 9) = (Inr (\<lparr>v_data = Some 1, v_size = 3, v_capacity = 4\<rparr>, 9), m') \<and>
      length (blocks m') = 2 \<and> least_pow2_ge 4 4"
    by (auto simp: W_def N4_def a4)
  moreover from insertion_reallocates_iff [of N4 W "Slot (Some 0) 1" 2] wf(2) c(3)
  have "\<exists>m'. emplace_back N4 W (Slot (Some 0) 1) = (Inl undefined_behaviour, m') \<and>
      length (blocks m') = 2"
    by (auto simp: W_def N4_def)
  moreover from insertion_reallocates_iff [of N3 W "Outside 9" 9] wf(3) c(4)
  have "emplace_back N3 W (Outside 9) = (Inl bad_alloc, N3)"
    by blast
  ultimately show ?thesis
    by (simp add: M_def N4_def N3_def V_def W_def)
qed

section \<open>Equality\<close>

lemma index_well_formed:
  "well_formed m v \<Longrightarrow> i < v_size v \<Longrightarrow> index m v i = Inr (elems m v ! unat i)"
  using deref_well_formed [of m v i] by (simp add: index_def)

lemma eq_loop_ok:
  assumes "well_formed m l" "well_formed m r" "v_size l = v_size r"
  shows "eq_loop m l r i =
     Inr (\<forall>k. unat i \<le> k \<and> k < unat (v_size l) \<longrightarrow> elems m l ! k = elems m r ! k)"
  using assms
proof (induction m l r i rule: eq_loop.induct)
  case (1 m l r i)
  show ?case
  proof (cases "i < v_size l")
    case False
    then have "unat (v_size l) \<le> unat i"
      by (simp add: word_less_nat_alt)
    then have "\<forall>k. unat i \<le> k \<and> k < unat (v_size l) \<longrightarrow> elems m l ! k = elems m r ! k"
      by auto
    with False show ?thesis
      by (simp add: eq_loop.simps [of m])
  next
    case True
    then have lt: "unat i < unat (v_size l)" and suc: "unat (i + 1) = Suc (unat i)"
      by (simp_all add: word_less_nat_alt unat_inc_less)
    have a: "index m l i = Inr (elems m l ! unat i)"
      using "1.prems"(1) True by (rule index_well_formed)
    have b: "index m r i = Inr (elems m r ! unat i)"
      using "1.prems"(2,3) True by (intro index_well_formed) simp_all
    show ?thesis
    proof (cases "elems m l ! unat i = elems m r ! unat i")
      case False
      then have "\<not> (\<forall>k. unat i \<le> k \<and> k < unat (v_size l) \<longrightarrow> elems m l ! k = elems m r ! k)"
        using lt by auto
      with False True a b show ?thesis
        by (simp add: eq_loop.simps [of m])
    next
      case same: True
      have "eq_loop m l r (i + 1) =
          Inr (\<forall>k. unat (i + 1) \<le> k \<and> k < unat (v_size l) \<longrightarrow> elems m l ! k = elems m r ! k)"
        using same "1.prems" by (intro "1.IH" [OF True a b]) simp_all
      moreover have "(\<forall>k. unat (i + 1) \<le> k \<and> k < unat (v_size l) \<longrightarrow> elems m l ! k = elems m r ! k)
          \<longleftrightarrow> (\<forall>k. unat i \<le> k \<and> k < unat (v_size l) \<longrightarrow> elems m l ! k = elems m r ! k)"
        unfolding suc using same by (metis Suc_leI le_neq_implies_less Suc_leD)
      ultimately show ?thesis
        using True a b same by (simp add: eq_loop.simps [of m])
    qed
  qed
qed

lemma all_below_word:
  "(\<forall>i :: size_t. i < s \<longrightarrow> P (unat i)) \<longleftrightarrow> (\<forall>k < unat s. P k)"
proof
  assume l: "\<forall>i :: size_t. i < s \<longrightarrow> P (unat i)"
  show "\<forall>k < unat s. P k"
  proof (intro allI impI)
    fix k
    assume k: "k < unat s"
    then have u: "unat (word_of_nat k :: size_t) = k"
      by (metis le_unat_uoi less_imp_le)
    with k have "(word_of_nat k :: size_t) < s"
      by (simp add: word_less_nat_alt)
    with l u show "P k"
      by metis
  qed
next
  assume "\<forall>k < unat s. P k"
  then show "\<forall>i :: size_t. i < s \<longrightarrow> P (unat i)"
    by (simp add: word_less_nat_alt)
qed

lemma vector_eq_well_formed:
  assumes "well_formed m l" "well_formed m r"
  shows "vector_eq m l r =
     Inr (v_data l \<noteq> None \<and> v_data r \<noteq> None \<and> v_size l = v_size r \<and>
          (\<forall>i. i < v_size l \<longrightarrow> index m l i = index m r i))"
proof (cases "v_data l \<noteq> None \<and> v_data r \<noteq> None \<and> v_size l = v_size r")
  case False
  then show ?thesis
    by (auto simp: vector_eq_def)
next
  case True
  have "(\<forall>i. i < v_size l \<longrightarrow> index m l i = index m r i) \<longleftrightarrow>
        (\<forall>i. i < v_size l \<longrightarrow> elems m l ! unat i = elems m r ! unat i)"
    using assms True by (auto simp: index_well_formed)
  also have "\<dots> \<longleftrightarrow> (\<forall>k < unat (v_size l). elems m l ! k = elems m r ! k)"
    by (rule all_below_word)
  finally show ?thesis
    using True eq_loop_ok [OF assms, of 0] by (auto simp: vector_eq_def)
qed

text \<open>
  C2. \<^verbatim>\<open>operator==\<close> is false as soon as one side has null storage, also for two
  default-constructed vectors. For well-formed vectors it is true exactly when both
  storages are non-null, the sizes are equal and the elements agree at every index
  below the size; \<^verbatim>\<open>operator!=\<close> is its negation. So a vector is equal to itself
  exactly when its storage is non-null, and the comparison is symmetric.
\<close>

theorem vector_eq_iff:
  "(v_data l = None \<or> v_data r = None \<longrightarrow>
      vector_eq m l r = Inr False \<and> vector_ne m l r = Inr True) \<and>
   vector_eq m vector_default vector_default = Inr False \<and>
   (well_formed m l \<and> well_formed m r \<longrightarrow>
      vector_eq m l r =
        Inr (v_data l \<noteq> None \<and> v_data r \<noteq> None \<and> v_size l = v_size r \<and>
             (\<forall>i. i < v_size l \<longrightarrow> index m l i = index m r i)) \<and>
      vector_ne m l r =
        Inr (\<not> (v_data l \<noteq> None \<and> v_data r \<noteq> None \<and> v_size l = v_size r \<and>
                (\<forall>i. i < v_size l \<longrightarrow> index m l i = index m r i))) \<and>
      vector_eq m l l = Inr (v_data l \<noteq> None) \<and>
      vector_eq m l r = vector_eq m r l)"
proof (intro conjI impI)
  assume "v_data l = None \<or> v_data r = None"
  then show "vector_eq m l r = Inr False" "vector_ne m l r = Inr True"
    by (auto simp: vector_eq_def vector_ne_def)
next
  show "vector_eq m vector_default vector_default = Inr False"
    by (simp add: vector_eq_def vector_default_def)
next
  assume "well_formed m l \<and> well_formed m r"
  then have wl: "well_formed m l" and wr: "well_formed m r"
    by simp_all
  show e: "vector_eq m l r =
        Inr (v_data l \<noteq> None \<and> v_data r \<noteq> None \<and> v_size l = v_size r \<and>
             (\<forall>i. i < v_size l \<longrightarrow> index m l i = index m r i))"
    using wl wr by (rule vector_eq_well_formed)
  then show "vector_ne m l r =
        Inr (\<not> (v_data l \<noteq> None \<and> v_data r \<noteq> None \<and> v_size l = v_size r \<and>
                (\<forall>i. i < v_size l \<longrightarrow> index m l i = index m r i)))"
    by (simp add: vector_ne_def)
  show "vector_eq m l l = Inr (v_data l \<noteq> None)"
    using vector_eq_well_formed [OF wl wl] by simp
  have "(v_data l \<noteq> None \<and> v_data r \<noteq> None \<and> v_size l = v_size r \<and>
             (\<forall>i. i < v_size l \<longrightarrow> index m l i = index m r i)) \<longleftrightarrow>
        (v_data r \<noteq> None \<and> v_data l \<noteq> None \<and> v_size r = v_size l \<and>
             (\<forall>i. i < v_size r \<longrightarrow> index m r i = index m l i))"
    by auto
  then show "vector_eq m l r = vector_eq m r l"
    unfolding e using vector_eq_well_formed [OF wr wl] by simp
qed

theorem vector_eq_iff_witness:
  "vector_eq \<lparr>blocks = [Some [Some 1, Some 2], Some [Some 1, Some 2, None], Some [Some (1 :: int), Some 3]],
              free_slots = 0\<rparr>
      \<lparr>v_data = Some 1, v_size = 2, v_capacity = 3\<rparr> \<lparr>v_data = Some 0, v_size = 2, v_capacity = 2\<rparr>
     = Inr True \<and>
   vector_ne \<lparr>blocks = [Some [Some 1, Some 2], Some [Some 1, Some 2, None], Some [Some (1 :: int), Some 3]],
              free_slots = 0\<rparr>
      \<lparr>v_data = Some 1, v_size = 2, v_capacity = 3\<rparr> \<lparr>v_data = Some 0, v_size = 2, v_capacity = 2\<rparr>
     = Inr False \<and>
   vector_eq \<lparr>blocks = [Some [Some 1, Some 2], Some [Some 1, Some 2, None], Some [Some (1 :: int), Some 3]],
              free_slots = 0\<rparr>
      \<lparr>v_data = Some 2, v_size = 2, v_capacity = 2\<rparr> \<lparr>v_data = Some 0, v_size = 2, v_capacity = 2\<rparr>
     = Inr False \<and>
   vector_eq \<lparr>blocks = [Some [Some 1, Some 2], Some [Some 1, Some 2, None], Some [Some (1 :: int), Some 3]],
              free_slots = 0\<rparr>
      \<lparr>v_data = Some 0, v_size = 2, v_capacity = 2\<rparr> \<lparr>v_data = Some 0, v_size = 2, v_capacity = 2\<rparr>
     = Inr True \<and>
   vector_eq \<lparr>blocks = [Some [Some 1, Some 2], Some [Some 1, Some 2, None], Some [Some (1 :: int), Some 3]],
              free_slots = 0\<rparr>
      vector_default \<lparr>v_data = Some 0, v_size = 2, v_capacity = 2\<rparr>
     = Inr False"
proof -
  define M :: "int memory" where
    "M = \<lparr>blocks = [Some [Some 1, Some 2], Some [Some 1, Some 2, None], Some [Some 1, Some 3]],
          free_slots = 0\<rparr>"
  define A where "A = \<lparr>v_data = Some 0, v_size = 2, v_capacity = 2\<rparr>"
  define B where "B = \<lparr>v_data = Some 1, v_size = 2, v_capacity = 3\<rparr>"
  define C where "C = \<lparr>v_data = Some 2, v_size = 2, v_capacity = 2\<rparr>"
  have wf: "well_formed M A" "well_formed M B" "well_formed M C"
    by (simp_all add: well_formed_def lookup_def M_def A_def B_def C_def word_le_nat_alt)
  have ev: "vector_eq M A B = Inr True" "vector_eq M A C = Inr False"
    by (simp_all add: vector_eq_def eq_loop.simps index_def deref_def lookup_def
        M_def A_def B_def C_def word_less_nat_alt)
  note ab = vector_eq_iff [of A B M, THEN conjunct2, THEN conjunct2, rule_format,
      OF conjI [OF wf(1) wf(2)]]
  note ac = vector_eq_iff [of A C M, THEN conjunct2, THEN conjunct2, rule_format,
      OF conjI [OF wf(1) wf(3)]]
  have "vector_eq M B A = Inr True"
    using ab [THEN conjunct2, THEN conjunct2, THEN conjunct2] ev(1) by simp
  moreover have "vector_ne M B A = Inr False"
    using \<open>vector_eq M B A = Inr True\<close> by (simp add: vector_ne_def)
  moreover have "vector_eq M C A = Inr False"
    using ac [THEN conjunct2, THEN conjunct2, THEN conjunct2] ev(2) by simp
  moreover have "vector_eq M A A = Inr True"
    using ab [THEN conjunct2, THEN conjunct2, THEN conjunct1] by (simp add: A_def)
  moreover have "vector_eq M vector_default A = Inr False"
    using vector_eq_iff [of vector_default A M, THEN conjunct1] by (simp add: vector_default_def)
  ultimately show ?thesis
    by (simp add: M_def A_def B_def C_def)
qed

section \<open>Element-wise sum and difference\<close>










section \<open>The invariant \<open>size \<le> capacity\<close>\<close>

text \<open>
  C8 fails in \<^verbatim>\<open>resize\<close>: for a request above \<open>2^63\<close> the rounding \<^verbatim>\<open>alloc_size\<close> wraps
  around to 0, \<^verbatim>\<open>reserve(0)\<close> returns at once, and the size is set beyond the capacity.
\<close>

theorem resize_breaks_size_le_capacity:
  "resize m vector_default (2 ^ 63 + 1) =
     (Inr \<lparr>v_data = None, v_size = 2 ^ 63 + 1, v_capacity = 0\<rparr>, m) \<and>
   \<not> v_size \<lparr>v_data = None, v_size = 2 ^ 63 + 1, v_capacity = 0\<rparr>
       \<le> v_capacity \<lparr>v_data = None, v_size = 2 ^ 63 + 1, v_capacity = 0\<rparr>"
proof -
  have "alloc_size (2 ^ 63 + 1) = 0"
    by (simp add: alloc_size_def Let_def)
  then show ?thesis
    by (simp add: resize_def reserve_def vector_default_def)
qed

lemma shrink_to_fit_result:
  "shrink_to_fit m v = (Inr v', m') \<Longrightarrow> v_size v' = v_size v \<and> v_capacity v' = v_size v"
  by (auto simp: shrink_to_fit_def split: if_splits prod.splits sum.splits)

lemma resize_result:
  "resize m v n = (Inr v', m') \<Longrightarrow>
   v_size v' = n \<and>
   v_capacity v' =
     (if n \<le> v_size v \<or> alloc_size n \<le> v_capacity v then v_capacity v else alloc_size n)"
  by (auto simp: resize_def dest!: reserve_result split: if_splits prod.splits sum.splits)

text \<open>
  Everywhere else the invariant is kept: by \<^verbatim>\<open>reserve\<close>, \<^verbatim>\<open>shrink_to_fit\<close>,
  \<^verbatim>\<open>pop_back\<close> and \<^verbatim>\<open>swap\<close>, by \<^verbatim>\<open>resize\<close> for a request of at most \<open>2^63\<close>, and by
  \<^verbatim>\<open>push_back\<close> on a vector whose capacity is below \<open>2^63\<close>.
\<close>

lemma size_le_capacity_kept:
  assumes inv: "v_size v \<le> v_capacity v"
  shows "reserve m v n = (Inr v', m') \<Longrightarrow> v_size v' \<le> v_capacity v'"
    and "shrink_to_fit m v = (Inr v', m') \<Longrightarrow> v_size v' \<le> v_capacity v'"
    and "v_size (pop_back v) \<le> v_capacity (pop_back v)"
    and "v_size w \<le> v_capacity w \<Longrightarrow>
         v_size (fst (swap v w)) \<le> v_capacity (fst (swap v w)) \<and>
         v_size (snd (swap v w)) \<le> v_capacity (snd (swap v w))"
    and "unat n \<le> 2 ^ 63 \<Longrightarrow> resize m v n = (Inr v', m') \<Longrightarrow> v_size v' \<le> v_capacity v'"
    and "unat (v_capacity v) < 2 ^ 63 \<Longrightarrow> push_back m v x = (Inr v', m') \<Longrightarrow>
         v_size v' \<le> v_capacity v'"
proof -
  show "v_size v' \<le> v_capacity v'" if "reserve m v n = (Inr v', m')"
    using reserve_result [OF that] inv by (auto split: if_splits)
  show "v_size v' \<le> v_capacity v'" if "shrink_to_fit m v = (Inr v', m')"
    using shrink_to_fit_result [OF that] by simp
  show "v_size (pop_back v) \<le> v_capacity (pop_back v)"
  proof (cases "v_size v = 0")
    case False
    then have "v_size v - 1 \<le> v_size v"
      by (simp add: word_le_nat_alt unat_minus_one)
    with inv False show ?thesis
      by (simp add: pop_back_def)
  qed (use inv in \<open>simp add: pop_back_def\<close>)
  show "v_size (fst (swap v w)) \<le> v_capacity (fst (swap v w)) \<and>
         v_size (snd (swap v w)) \<le> v_capacity (snd (swap v w))" if "v_size w \<le> v_capacity w"
    using that inv by (simp add: swap_exchanges)
  show "v_size v' \<le> v_capacity v'" if n: "unat n \<le> 2 ^ 63" and r: "resize m v n = (Inr v', m')"
  proof (cases "n \<le> v_size v")
    case True
    with resize_result [OF r] inv show ?thesis
      by simp
  next
    case False
    then have "0 < unat n"
      by (cases "n = 0") (simp_all add: unat_gt_0)
    from alloc_size_least [OF this n] have "n \<le> alloc_size n"
      by (simp add: least_pow2_ge_def word_le_nat_alt)
    with resize_result [OF r] False show ?thesis
      by (auto split: if_splits)
  qed
  show "v_size v' \<le> v_capacity v'"
    if c: "unat (v_capacity v) < 2 ^ 63" and p: "push_back m v x = (Inr v', m')"
  proof -
    have s1: "unat (v_size v + 1) = unat (v_size v) + 1"
      using inv c by (simp add: unat_word_ariths word_le_nat_alt)
    have "unat (v_capacity v) + 1 \<le> unat (alloc_size (v_capacity v + 1))"
      using alloc_size_succ(2) [OF c] by (simp add: least_pow2_ge_def)
    with push_back_result [OF p] inv s1 show ?thesis
      by (auto simp: word_le_nat_alt word_less_nat_alt split: if_splits)
  qed
qed

end
